theory Spec2Isabelle
  imports Complex_Main "HOL-Library.Stream" "HOL-Library.Multiset"
    "HOL-Library.Product_Lexorder"
begin

section \<open>Grid world model (environment.py)\<close>

text \<open>
  Positions are pairs of Python integers, modelled as \<open>int \<times> int\<close>. Terrain costs are
  the entries of an integer array; they are modelled as unbounded integers (no cost sum
  of a realistic grid comes near the 64-bit range of the array's element type).
\<close>

type_synonym pos = "int \<times> int"

datatype Direction = UP | DOWN | LEFT | RIGHT | STAY

fun dir_value :: "Direction \<Rightarrow> int \<times> int" where
  "dir_value UP = (0, -1)"
| "dir_value DOWN = (0, 1)"
| "dir_value LEFT = (-1, 0)"
| "dir_value RIGHT = (1, 0)"
| "dir_value STAY = (0, 0)"

text \<open>The exceptions the modelled code can raise.\<close>

datatype error = ZeroDivisionError | IndexError | KeyError | OverflowError

subsection \<open>Dynamic obstacles\<close>

record DynamicObstacle =
  name :: string
  ob_position :: pos
  pattern :: "Direction list"
  interval :: int
  step_count :: int
  history :: "pos list"

definition DynamicObstacle_init ::
  "string \<Rightarrow> pos \<Rightarrow> Direction list \<Rightarrow> int \<Rightarrow> DynamicObstacle" where
  "DynamicObstacle_init nm start_pos pat ival =
     \<lparr>name = nm, ob_position = start_pos, pattern = pat, interval = ival,
      step_count = 0, history = [start_pos]\<rparr>"

definition shift :: "pos \<Rightarrow> Direction \<Rightarrow> pos" where
  "shift p d = (fst p + fst (dir_value d), snd p + snd (dir_value d))"

text \<open>
  \<open>move\<close> mutates the obstacle; the model returns the value (or the exception) together
  with the obstacle after the call. Both divisions by zero happen before any field is
  written, so a raising call leaves the obstacle as it was.
\<close>

definition move :: "DynamicObstacle \<Rightarrow> int \<Rightarrow> (error + pos) \<times> DynamicObstacle" where
  "move ob t =
     (if interval ob = 0 then (Inl ZeroDivisionError, ob)
      else if t mod interval ob = 0 then
        (if pattern ob = [] then (Inl ZeroDivisionError, ob)
         else
           let pattern_index = (t div interval ob) mod int (length (pattern ob));
               new_pos = shift (ob_position ob) (pattern ob ! nat pattern_index);
               ob' = ob\<lparr>ob_position := new_pos, history := history ob @ [new_pos]\<rparr>
           in (Inr new_pos, ob'))
      else (Inr (ob_position ob), ob))"

text \<open>A sequence of \<open>move\<close> calls, whatever each one returned or raised.\<close>

fun moves :: "DynamicObstacle \<Rightarrow> int list \<Rightarrow> DynamicObstacle" where
  "moves ob [] = ob"
| "moves ob (t # ts) = moves (snd (move ob t)) ts"

text \<open>
  The prediction loop \<open>for i in range(effective_time + 1)\<close>, replaying the pattern from
  the first recorded position.
\<close>

definition replay :: "Direction list \<Rightarrow> pos \<Rightarrow> int \<Rightarrow> pos" where
  "replay pat start effective_time =
     fold (\<lambda>i current_pos. shift current_pos (pat ! (i mod length pat)))
          [0 ..< nat (effective_time + 1)] start"

definition get_position_at_time :: "DynamicObstacle \<Rightarrow> int \<Rightarrow> error + pos" where
  "get_position_at_time ob t =
     (if interval ob = 0 then Inl ZeroDivisionError
      else if pattern ob = [] then Inl ZeroDivisionError
      else (case history ob of
              [] \<Rightarrow> Inl IndexError
            | h0 # _ \<Rightarrow> Inr (replay (pattern ob) h0 (t div interval ob))))"

subsection \<open>The grid environment\<close>

text \<open>
  The cost array has shape (height, width) from its construction on, and every read of it
  is guarded by the bounds check, so it is modelled as a function of the row \<open>y\<close> and the
  column \<open>x\<close>. The dictionaries keep their insertion order as association lists.
\<close>

record GridEnvironment =
  width :: int
  height :: int
  grid :: "int \<Rightarrow> int \<Rightarrow> int"
  static_obstacles :: "pos set"
  dynamic_obstacles :: "(string \<times> DynamicObstacle) list"
  packages :: "(int \<times> pos) list"
  start_position :: pos
  delivery_points :: "pos set"

definition GridEnvironment_init :: "int \<Rightarrow> int \<Rightarrow> GridEnvironment" where
  "GridEnvironment_init w h =
     \<lparr>width = w, height = h, grid = (\<lambda>y x. 1), static_obstacles = {},
      dynamic_obstacles = [], packages = [], start_position = (0, 0),
      delivery_points = {}\<rparr>"

definition is_within_bounds :: "GridEnvironment \<Rightarrow> int \<Rightarrow> int \<Rightarrow> bool" where
  "is_within_bounds env x y \<longleftrightarrow> 0 \<le> x \<and> x < width env \<and> 0 \<le> y \<and> y < height env"

definition get_terrain_cost :: "GridEnvironment \<Rightarrow> int \<Rightarrow> int \<Rightarrow> int" where
  "get_terrain_cost env x y = (if \<not> is_within_bounds env x y then 999 else grid env y x)"

text \<open>The loop over \<open>dynamic_obstacles.values()\<close>: the first hit or the first exception ends it.\<close>

fun obstructed_loop :: "DynamicObstacle list \<Rightarrow> pos \<Rightarrow> int \<Rightarrow> error + bool" where
  "obstructed_loop [] p t = Inr False"
| "obstructed_loop (ob # obs) p t =
     (case get_position_at_time ob t of
        Inl e \<Rightarrow> Inl e
      | Inr obs_pos \<Rightarrow> if p = obs_pos then Inr True else obstructed_loop obs p t)"

definition is_obstructed :: "GridEnvironment \<Rightarrow> int \<Rightarrow> int \<Rightarrow> int \<Rightarrow> error + bool" where
  "is_obstructed env x y t =
     (if (x, y) \<in> static_obstacles env then Inr True
      else obstructed_loop (map snd (dynamic_obstacles env)) (x, y) t)"

text \<open>
  \<open>get_valid_moves\<close>: the four directions in the order UP, DOWN, LEFT, RIGHT. The
  obstruction test is only reached for a neighbour inside the grid.
\<close>

fun valid_moves_loop ::
  "GridEnvironment \<Rightarrow> int \<Rightarrow> int \<Rightarrow> int \<Rightarrow> Direction list \<Rightarrow> error + (int \<times> int \<times> int) list" where
  "valid_moves_loop env x y t [] = Inr []"
| "valid_moves_loop env x y t (d # ds) =
     (let new_x = x + fst (dir_value d); new_y = y + snd (dir_value d) in
      if is_within_bounds env new_x new_y then
        (case is_obstructed env new_x new_y t of
           Inl e \<Rightarrow> Inl e
         | Inr True \<Rightarrow> valid_moves_loop env x y t ds
         | Inr False \<Rightarrow>
             (case valid_moves_loop env x y t ds of
                Inl e \<Rightarrow> Inl e
              | Inr ms \<Rightarrow> Inr ((new_x, new_y, get_terrain_cost env new_x new_y) # ms)))
      else valid_moves_loop env x y t ds)"

definition get_valid_moves ::
  "GridEnvironment \<Rightarrow> int \<Rightarrow> int \<Rightarrow> int \<Rightarrow> error + (int \<times> int \<times> int) list" where
  "get_valid_moves env x y t = valid_moves_loop env x y t [UP, DOWN, LEFT, RIGHT]"

text \<open>
  The data model's condition on dynamic obstacles: a non-empty pattern, an interval that
  is not zero, and a history that still holds its first entry. Under it no query raises.
\<close>

definition obstacle_ok :: "DynamicObstacle \<Rightarrow> bool" where
  "obstacle_ok ob \<longleftrightarrow> interval ob \<noteq> 0 \<and> pattern ob \<noteq> [] \<and> history ob \<noteq> []"

definition obstacles_ok :: "GridEnvironment \<Rightarrow> bool" where
  "obstacles_ok env \<longleftrightarrow> list_all obstacle_ok (map snd (dynamic_obstacles env))"

section \<open>Exhaustive search (algorithms.py)\<close>

text \<open>
  A search node with its back-link to the parent node. The field \<open>action\<close> is never
  set by the code. The diagnostic counter \<open>nodes_expanded\<close> has no influence on any
  result and is left out.
\<close>

datatype SearchNode = SearchNode
  (n_position: pos) (n_time: int) (n_parent: "SearchNode option")
  (n_action: "Direction option") (n_cost: int) (n_packages_delivered: "int set")

definition start_node :: "pos \<Rightarrow> SearchNode" where
  "start_node p = SearchNode p 0 None None 0 {}"

fun chain :: "SearchNode \<Rightarrow> pos list" where
  "chain (SearchNode p t par a c d) = p # (case par of None \<Rightarrow> [] | Some n \<Rightarrow> chain n)"

definition reconstruct_path :: "SearchNode \<Rightarrow> pos list" where
  "reconstruct_path node = rev (chain node)"

definition deliver :: "(int \<times> pos) list \<Rightarrow> pos \<Rightarrow> int set \<Rightarrow> int set" where
  "deliver pkgs p delivered =
     fold (\<lambda>(pkg_id, delivery_pos) new_packages.
             if p = delivery_pos \<and> pkg_id \<notin> new_packages
             then insert pkg_id new_packages else new_packages)
          pkgs delivered"

definition get_successors :: "GridEnvironment \<Rightarrow> SearchNode \<Rightarrow> error + SearchNode list" where
  "get_successors env node =
     (case get_valid_moves env (fst (n_position node)) (snd (n_position node)) (n_time node) of
        Inl e \<Rightarrow> Inl e
      | Inr ms \<Rightarrow>
          Inr (map (\<lambda>(new_x, new_y, move_cost).
                     SearchNode (new_x, new_y) (n_time node + 1) (Some node) None
                       (n_cost node + move_cost)
                       (deliver (packages env) (new_x, new_y) (n_packages_delivered node)))
                   ms))"

function siftdown_loop ::
  "('a \<Rightarrow> 'a \<Rightarrow> bool) \<Rightarrow> 'a list \<Rightarrow> nat \<Rightarrow> nat \<Rightarrow> 'a \<Rightarrow> 'a list" where
  "siftdown_loop lt heap startpos pos newitem =
     (if pos > startpos then
        (let parentpos = (pos - 1) div 2; parent = heap ! parentpos in
         if lt newitem parent
         then siftdown_loop lt (heap[pos := parent]) startpos parentpos newitem
         else heap[pos := newitem])
      else heap[pos := newitem])"
  by pat_completeness auto
termination
  by (relation "measure (\<lambda>(lt, heap, startpos, pos, newitem). pos)") auto

declare siftdown_loop.simps [simp del]

definition siftdown :: "('a \<Rightarrow> 'a \<Rightarrow> bool) \<Rightarrow> 'a list \<Rightarrow> nat \<Rightarrow> nat \<Rightarrow> 'a list" where
  "siftdown lt heap startpos pos = siftdown_loop lt heap startpos pos (heap ! pos)"

function siftup_loop ::
  "('a \<Rightarrow> 'a \<Rightarrow> bool) \<Rightarrow> 'a list \<Rightarrow> nat \<Rightarrow> nat \<Rightarrow> nat \<Rightarrow> 'a list \<times> nat" where
  "siftup_loop lt heap endpos pos childpos =
     (if childpos < endpos then
        (let rightpos = childpos + 1;
             childpos' = (if rightpos < endpos \<and> \<not> lt (heap ! childpos) (heap ! rightpos)
                          then rightpos else childpos)
         in siftup_loop lt (heap[pos := heap ! childpos']) endpos childpos' (2 * childpos' + 1))
      else (heap, pos))"
  by pat_completeness auto
termination
  by (relation "measure (\<lambda>(lt, heap, endpos, pos, childpos). endpos - childpos)") auto

declare siftup_loop.simps [simp del]

definition siftup :: "('a \<Rightarrow> 'a \<Rightarrow> bool) \<Rightarrow> 'a list \<Rightarrow> nat \<Rightarrow> 'a list" where
  "siftup lt heap pos =
     (let newitem = heap ! pos;
          (heap', pos') = siftup_loop lt heap (length heap) pos (2 * pos + 1)
      in siftdown lt (heap'[pos' := newitem]) pos pos')"

definition heappush :: "('a \<Rightarrow> 'a \<Rightarrow> bool) \<Rightarrow> 'a list \<Rightarrow> 'a \<Rightarrow> 'a list" where
  "heappush lt heap item = siftdown lt (heap @ [item]) 0 (length heap)"

fun heappop :: "('a \<Rightarrow> 'a \<Rightarrow> bool) \<Rightarrow> 'a list \<Rightarrow> ('a \<times> 'a list) option" where
  "heappop lt [] = None"
| "heappop lt (x # xs) =
     (let lastelt = last (x # xs); heap = butlast (x # xs) in
      if heap \<noteq> [] then Some (hd heap, siftup lt (heap[0 := lastelt]) 0)
      else Some (lastelt, heap))"

definition entry_less :: "('p::linorder \<times> SearchNode) \<Rightarrow> ('p \<times> SearchNode) \<Rightarrow> bool" where
  "entry_less a b \<longleftrightarrow> fst a < fst b \<or> (fst a = fst b \<and> n_cost (snd a) < n_cost (snd b))"

definition bfs_visit :: "SearchNode list \<Rightarrow> SearchNode list \<times> pos set \<Rightarrow> SearchNode list \<times> pos set" where
  "bfs_visit succs qv =
     fold (\<lambda>successor (queue, visited).
             if n_position successor \<notin> visited
             then (queue @ [successor], insert (n_position successor) visited)
             else (queue, visited))
          succs qv"

definition cells :: "GridEnvironment \<Rightarrow> pos set" where
  "cells env = {0 ..< width env} \<times> {0 ..< height env}"

function BFS_loop ::
  "GridEnvironment \<Rightarrow> pos \<Rightarrow> SearchNode list \<Rightarrow> pos set \<Rightarrow> error + pos list option" where
  "BFS_loop env goal [] visited = Inr None"
| "BFS_loop env goal (current # queue) visited =
     (if n_position current = goal then Inr (Some (reconstruct_path current))
      else (case get_successors env current of
              Inl e \<Rightarrow> Inl e
            | Inr succs \<Rightarrow>
                (case bfs_visit succs (queue, visited) of
                   (queue', visited') \<Rightarrow> BFS_loop env goal queue' visited')))"
  by pat_completeness auto

lemma finite_cells: "finite (cells env)"
  by (simp add: cells_def)

lemma in_cells: "(x, y) \<in> cells env \<longleftrightarrow> is_within_bounds env x y"
  by (auto simp: cells_def is_within_bounds_def)

lemma valid_moves_loop_in_bounds:
  "valid_moves_loop env x y t ds = Inr ms \<Longrightarrow> (nx, ny, c) \<in> set ms \<Longrightarrow> (nx, ny) \<in> cells env"
  by (induction ds arbitrary: ms)
     (auto simp: Let_def in_cells split: if_splits sum.splits bool.splits)

lemma get_valid_moves_in_bounds:
  "get_valid_moves env x y t = Inr ms \<Longrightarrow> (nx, ny, c) \<in> set ms \<Longrightarrow> (nx, ny) \<in> cells env"
  unfolding get_valid_moves_def by (rule valid_moves_loop_in_bounds)

lemma get_successors_in_cells:
  assumes "get_successors env node = Inr succs" "s \<in> set succs"
  shows "n_position s \<in> cells env"
proof -
  from assms(1) obtain ms where
    ms: "get_valid_moves env (fst (n_position node)) (snd (n_position node)) (n_time node) = Inr ms"
    and succs: "succs = map (\<lambda>(new_x, new_y, move_cost).
                     SearchNode (new_x, new_y) (n_time node + 1) (Some node) None
                       (n_cost node + move_cost)
                       (deliver (packages env) (new_x, new_y) (n_packages_delivered node))) ms"
    by (auto simp: get_successors_def split: sum.splits)
  from assms(2) succs obtain nx ny c where "(nx, ny, c) \<in> set ms" "n_position s = (nx, ny)"
    by auto
  with get_valid_moves_in_bounds [OF ms] show ?thesis by simp
qed

lemma bfs_visit_measure:
  "\<forall>s \<in> set succs. n_position s \<in> cells env \<Longrightarrow>
   bfs_visit succs (queue, visited) = (queue', visited') \<Longrightarrow>
   card (cells env - visited') + length queue' = card (cells env - visited) + length queue"
proof (induction succs arbitrary: queue visited)
  case Nil
  then show ?case by (simp add: bfs_visit_def)
next
  case (Cons s succs)
  show ?case
  proof (cases "n_position s \<in> visited")
    case True
    with Cons.prems(2) have "bfs_visit succs (queue, visited) = (queue', visited')"
      by (simp add: bfs_visit_def)
    with Cons.IH Cons.prems(1) show ?thesis by simp
  next
    case False
    with Cons.prems(2)
    have "bfs_visit succs (queue @ [s], insert (n_position s) visited) = (queue', visited')"
      by (simp add: bfs_visit_def)
    with Cons.IH Cons.prems(1)
    have "card (cells env - visited') + length queue' =
          card (cells env - insert (n_position s) visited) + length (queue @ [s])"
      by simp
    moreover have "n_position s \<in> cells env - visited"
      using False Cons.prems(1) by simp
    then have "card (cells env - insert (n_position s) visited) + 1 = card (cells env - visited)"
      using finite_cells [of env]
      by (metis Diff_insert Suc_eq_plus1 card_Suc_Diff1 finite_Diff)
    ultimately show ?thesis by simp
  qed
qed

termination BFS_loop
proof (relation "measure (\<lambda>(env, goal, queue, visited). card (cells env - visited) + length queue)")
  show "wf (measure (\<lambda>(env, goal, queue, visited). card (cells env - visited) + length queue))"
    by simp
next
  fix env goal current queue visited succs x y
  assume "get_successors env current = Inr succs"
    and "(x, y) = bfs_visit succs (queue, visited)"
  then have "card (cells env - y) + length x = card (cells env - visited) + length queue"
    using bfs_visit_measure [of succs env queue visited x y]
    by (metis get_successors_in_cells)
  then show "((env, goal, x, y), env, goal, current # queue, visited)
       \<in> measure (\<lambda>(env, goal, queue, visited). card (cells env - visited) + length queue)"
    by simp
qed

definition BFS_search :: "GridEnvironment \<Rightarrow> pos \<Rightarrow> pos \<Rightarrow> error + pos list option" where
  "BFS_search env start goal = BFS_loop env goal [start_node start] {start}"

lemma mset_hole_move:
  assumes "i < length xs" "j < length xs"
  shows "mset (xs[i := xs ! j, j := x]) = mset (xs[i := x])"
proof (cases "i = j")
  case True
  then show ?thesis by simp
next
  case False
  let ?ys = "xs[i := x]"
  have "mset (?ys[j := ?ys ! i, i := ?ys ! j]) = mset ?ys"
    using assms by (intro mset_swap) simp_all
  moreover have "?ys[j := ?ys ! i, i := ?ys ! j] = xs[i := xs ! j, j := x]"
    using False assms by (simp add: list_update_swap [of i j])
  ultimately show ?thesis by simp
qed

lemma siftdown_loop_length [simp]:
  "length (siftdown_loop lt heap startpos pos newitem) = length heap"
  by (induction lt heap startpos pos newitem rule: siftdown_loop.induct)
     (subst siftdown_loop.simps, simp add: Let_def)

lemma siftdown_loop_mset:
  "pos < length heap \<Longrightarrow>
     mset (siftdown_loop lt heap startpos pos newitem) = mset (heap[pos := newitem])"
proof (induction lt heap startpos pos newitem rule: siftdown_loop.induct)
  case (1 lt heap startpos pos newitem)
  show ?case
  proof (cases "pos > startpos \<and> lt newitem (heap ! ((pos - 1) div 2))")
    case True
    let ?pp = "(pos - 1) div 2"
    have pp: "?pp < length heap" "?pp \<noteq> pos" using "1.prems" True by auto
    have "mset (siftdown_loop lt heap startpos pos newitem) =
          mset (siftdown_loop lt (heap[pos := heap ! ?pp]) startpos ?pp newitem)"
      using True by (subst siftdown_loop.simps) (simp add: Let_def)
    also have "\<dots> = mset (heap[pos := heap ! ?pp, ?pp := newitem])"
      using True pp by (intro "1.IH") simp_all
    also have "\<dots> = mset (heap[pos := newitem])"
      using "1.prems" pp by (intro mset_hole_move) simp_all
    finally show ?thesis .
  next
    case False
    then show ?thesis by (subst siftdown_loop.simps) (auto simp: Let_def)
  qed
qed

lemma siftdown_length [simp]: "length (siftdown lt heap startpos pos) = length heap"
  by (simp add: siftdown_def)

lemma siftdown_mset: "pos < length heap \<Longrightarrow> mset (siftdown lt heap startpos pos) = mset heap"
  by (simp add: siftdown_def siftdown_loop_mset)

lemma siftup_loop_props:
  "siftup_loop lt heap endpos pos childpos = (heap', pos') \<Longrightarrow>
   pos < length heap \<Longrightarrow> endpos \<le> length heap \<Longrightarrow>
     length heap' = length heap \<and> pos' < length heap
     \<and> mset (heap'[pos' := x]) = mset (heap[pos := x])"
proof (induction lt heap endpos pos childpos arbitrary: heap' pos' rule: siftup_loop.induct)
  case (1 lt heap endpos pos childpos)
  show ?case
  proof (cases "childpos < endpos")
    case False
    with "1.prems" show ?thesis by (subst (asm) siftup_loop.simps) simp
  next
    case True
    define c where "c = (if childpos + 1 < endpos \<and> \<not> lt (heap ! childpos) (heap ! (childpos + 1))
                         then childpos + 1 else childpos)"
    have c: "c < length heap" using True "1.prems"(3) by (auto simp: c_def)
    have "siftup_loop lt heap endpos pos childpos =
          siftup_loop lt (heap[pos := heap ! c]) endpos c (2 * c + 1)"
      by (subst siftup_loop.simps) (simp add: True Let_def c_def)
    with "1.prems"(1)
    have step: "siftup_loop lt (heap[pos := heap ! c]) endpos c (2 * c + 1) = (heap', pos')"
      by simp
    note IH = "1.IH" [OF True refl refl, of heap' pos', unfolded c_def [symmetric]]
    have "length heap' = length (heap[pos := heap ! c]) \<and> pos' < length (heap[pos := heap ! c])
        \<and> mset (heap'[pos' := x]) = mset (heap[pos := heap ! c, c := x])"
      using c "1.prems"(3) by (intro IH [OF step]) simp_all
    moreover have "mset (heap[pos := heap ! c, c := x]) = mset (heap[pos := x])"
      using c "1.prems"(2) by (intro mset_hole_move)
    ultimately show ?thesis by simp
  qed
qed

lemma siftup_mset:
  assumes "pos < length heap"
  shows "mset (siftup lt heap pos) = mset heap" "length (siftup lt heap pos) = length heap"
proof -
  obtain heap' pos' where l: "siftup_loop lt heap (length heap) pos (2 * pos + 1) = (heap', pos')"
    by (cases "siftup_loop lt heap (length heap) pos (2 * pos + 1)")
  from siftup_loop_props [OF l assms, of "heap ! pos"]
  have p: "length heap' = length heap" "pos' < length heap"
    "mset (heap'[pos' := heap ! pos]) = mset heap" by simp_all
  have s: "siftup lt heap pos = siftdown lt (heap'[pos' := heap ! pos]) pos pos'"
    using l by (simp add: siftup_def)
  show "mset (siftup lt heap pos) = mset heap"
    using p by (simp add: s siftdown_mset)
  show "length (siftup lt heap pos) = length heap"
    using p by (simp add: s)
qed

lemma heappush_mset: "mset (heappush lt heap item) = add_mset item (mset heap)"
  by (simp add: heappush_def siftdown_mset)

lemma heappop_mset:
  assumes "heappop lt heap = Some (item, heap')"
  shows "mset heap = add_mset item (mset heap')"
proof (cases heap)
  case Nil
  with assms show ?thesis by simp
next
  case (Cons x xs)
  show ?thesis
  proof (cases "xs = []")
    case True
    with assms Cons show ?thesis by simp
  next
    case False
    let ?b = "butlast (x # xs)"
    have b: "?b \<noteq> []" "0 < length ?b" using False by simp_all
    from assms Cons False have item: "item = hd ?b"
      and heap': "heap' = siftup lt (?b[0 := last (x # xs)]) 0"
      by (simp_all add: Let_def)
    have "mset heap' = mset (?b[0 := last (x # xs)])"
      unfolding heap' using b by (intro siftup_mset) simp
    also have "\<dots> = add_mset (last (x # xs)) (mset ?b - {#hd ?b#})"
      using b by (simp add: mset_update hd_conv_nth)
    finally have "add_mset item (mset heap') = add_mset (last (x # xs)) (mset ?b)"
      using b by (simp add: item)
    also have "\<dots> = mset (?b @ [last (x # xs)])" by simp
    also have "?b @ [last (x # xs)] = x # xs" by (rule append_butlast_last_id) simp
    finally show ?thesis by (simp add: Cons)
  qed
qed

lemma heappop_None [simp]: "heappop lt heap = None \<longleftrightarrow> heap = []"
  by (cases heap) (simp_all add: Let_def)

definition ucs_relax ::
  "SearchNode list \<Rightarrow> (int \<times> SearchNode) list \<times> (pos \<rightharpoonup> int)
     \<Rightarrow> (int \<times> SearchNode) list \<times> (pos \<rightharpoonup> int)" where
  "ucs_relax succs fv =
     fold (\<lambda>successor (frontier, visited_costs).
             if (case visited_costs (n_position successor) of
                   None \<Rightarrow> True
                 | Some c \<Rightarrow> n_cost successor < c)
             then (heappush entry_less frontier (n_cost successor, successor),
                   visited_costs(n_position successor \<mapsto> n_cost successor))
             else (frontier, visited_costs))
          succs fv"

partial_function (option) UCS_loop ::
  "GridEnvironment \<Rightarrow> pos \<Rightarrow> (int \<times> SearchNode) list \<Rightarrow> (pos \<rightharpoonup> int)
     \<Rightarrow> (error + pos list option) option" where
  "UCS_loop env goal frontier visited_costs =
     (case heappop entry_less frontier of
        None \<Rightarrow> Some (Inr None)
      | Some ((current_cost, current), frontier') \<Rightarrow>
          if (case visited_costs (n_position current) of
                None \<Rightarrow> False
              | Some c \<Rightarrow> current_cost > c)
          then UCS_loop env goal frontier' visited_costs
          else if n_position current = goal then Some (Inr (Some (reconstruct_path current)))
          else (case get_successors env current of
                  Inl e \<Rightarrow> Some (Inl e)
                | Inr succs \<Rightarrow>
                    (case ucs_relax succs (frontier', visited_costs) of
                       (frontier'', visited_costs') \<Rightarrow>
                         UCS_loop env goal frontier'' visited_costs')))"

declare UCS_loop.simps [code]

definition UCS_search :: "GridEnvironment \<Rightarrow> pos \<Rightarrow> pos \<Rightarrow> (error + pos list option) option" where
  "UCS_search env start goal =
     UCS_loop env goal (heappush entry_less [] (0, start_node start)) [start \<mapsto> 0]"

definition calculate_heuristic :: "string \<Rightarrow> pos \<Rightarrow> pos \<Rightarrow> real" where
  "calculate_heuristic heuristic p goal =
     (let x1 = fst p; y1 = snd p; x2 = fst goal; y2 = snd goal in
      if heuristic = ''manhattan'' then real_of_int (\<bar>x1 - x2\<bar> + \<bar>y1 - y2\<bar>)
      else if heuristic = ''euclidean'' then sqrt (real_of_int ((x1 - x2)\<^sup>2 + (y1 - y2)\<^sup>2))
      else if heuristic = ''chebyshev'' then real_of_int (max \<bar>x1 - x2\<bar> \<bar>y1 - y2\<bar>)
      else 0)"

definition astar_relax ::
  "GridEnvironment \<Rightarrow> string \<Rightarrow> pos \<Rightarrow> SearchNode \<Rightarrow> pos set \<Rightarrow> SearchNode list
     \<Rightarrow> (real \<times> SearchNode) list \<times> (pos \<rightharpoonup> int)
     \<Rightarrow> (real \<times> SearchNode) list \<times> (pos \<rightharpoonup> int)" where
  "astar_relax env heuristic goal current visited succs fg =
     fold (\<lambda>successor (frontier, g_costs).
             if n_position successor \<in> visited then (frontier, g_costs)
             else
               let new_g = n_cost current
                     + get_terrain_cost env (fst (n_position successor)) (snd (n_position successor))
               in if (case g_costs (n_position successor) of
                        None \<Rightarrow> True
                      | Some g \<Rightarrow> new_g < g)
                  then
                    (let h = calculate_heuristic heuristic (n_position successor) goal;
                         f = real_of_int new_g + h
                     in (heappush entry_less frontier (f, successor),
                         g_costs(n_position successor \<mapsto> new_g)))
                  else (frontier, g_costs))
          succs fg"

function AStar_loop ::
  "GridEnvironment \<Rightarrow> string \<Rightarrow> pos \<Rightarrow> (real \<times> SearchNode) list \<Rightarrow> (pos \<rightharpoonup> int) \<Rightarrow> pos set
     \<Rightarrow> error + pos list option" where
  "AStar_loop env heuristic goal frontier g_costs visited =
     (case heappop entry_less frontier of
        None \<Rightarrow> Inr None
      | Some ((current_f, current), frontier') \<Rightarrow>
          if n_position current \<in> visited
          then AStar_loop env heuristic goal frontier' g_costs visited
          else
            (let visited' = insert (n_position current) visited in
             if n_position current = goal then Inr (Some (reconstruct_path current))
             else (case get_successors env current of
                     Inl e \<Rightarrow> Inl e
                   | Inr succs \<Rightarrow>
                       (case astar_relax env heuristic goal current visited' succs
                               (frontier', g_costs) of
                          (frontier'', g_costs') \<Rightarrow>
                            AStar_loop env heuristic goal frontier'' g_costs' visited'))))"
  by pat_completeness auto

definition frontier_cells :: "('p \<times> SearchNode) list \<Rightarrow> pos set" where
  "frontier_cells frontier = (n_position \<circ> snd) ` set frontier"

lemma frontier_cells_heappush:
  "frontier_cells (heappush lt frontier e) = insert (n_position (snd e)) (frontier_cells frontier)"
proof -
  have "set (heappush lt frontier e) = insert e (set frontier)"
    using heappush_mset [of lt frontier e] by (metis set_mset_add_mset_insert set_mset_mset)
  then show ?thesis by (simp add: frontier_cells_def)
qed

lemma heappush_set: "set (heappush lt frontier e) = insert e (set frontier)"
  using heappush_mset [of lt frontier e] by (metis set_mset_add_mset_insert set_mset_mset)

lemma heappop_set:
  assumes "heappop lt frontier = Some (e, frontier')"
  shows "set frontier = insert e (set frontier')" "length frontier = Suc (length frontier')"
proof -
  from heappop_mset [OF assms] have m: "mset frontier = add_mset e (mset frontier')" .
  then show "set frontier = insert e (set frontier')"
    by (metis set_mset_add_mset_insert set_mset_mset)
  from m show "length frontier = Suc (length frontier')"
    by (metis size_add_mset size_mset)
qed

lemma astar_relax_cells:
  "\<forall>s \<in> set succs. n_position s \<in> cells env \<Longrightarrow>
   astar_relax env heuristic goal current visited succs (frontier, g_costs) = (frontier', g_costs') \<Longrightarrow>
   frontier_cells frontier' \<subseteq> frontier_cells frontier \<union> cells env"
proof (induction succs arbitrary: frontier g_costs)
  case Nil
  then show ?case by (simp add: astar_relax_def)
next
  case (Cons s succs)
  obtain f1 g1 where step: "astar_relax env heuristic goal current visited [s] (frontier, g_costs) = (f1, g1)"
    by (cases "astar_relax env heuristic goal current visited [s] (frontier, g_costs)")
  have f1: "frontier_cells f1 \<subseteq> insert (n_position s) (frontier_cells frontier)"
    using step by (auto simp: astar_relax_def Let_def frontier_cells_heappush split: if_splits)
  have "astar_relax env heuristic goal current visited (s # succs) (frontier, g_costs)
        = astar_relax env heuristic goal current visited succs (f1, g1)"
    using step by (simp add: astar_relax_def)
  with Cons.prems(2) have "astar_relax env heuristic goal current visited succs (f1, g1) = (frontier', g_costs')"
    by simp
  with Cons.IH Cons.prems(1) have "frontier_cells frontier' \<subseteq> frontier_cells f1 \<union> cells env"
    by simp
  with f1 Cons.prems(1) show ?case by auto
qed

lemma astar_discard_measure:
  assumes pop: "heappop lt frontier = Some ((current_f, current), frontier')"
  shows "card ((frontier_cells frontier' \<union> cells env) - visited)
           \<le> card ((frontier_cells frontier \<union> cells env) - visited)"
    and "length frontier' < length frontier"
proof -
  from heappop_set [OF pop] have sub: "frontier_cells frontier' \<subseteq> frontier_cells frontier"
    and len: "length frontier' < length frontier"
    by (auto simp: frontier_cells_def)
  have "finite ((frontier_cells frontier \<union> cells env) - visited)"
    by (simp add: frontier_cells_def finite_cells)
  with sub show "card ((frontier_cells frontier' \<union> cells env) - visited)
           \<le> card ((frontier_cells frontier \<union> cells env) - visited)"
    by (intro card_mono) auto
  show "length frontier' < length frontier" by (rule len)
qed

lemma astar_expand_measure:
  assumes pop: "heappop lt frontier = Some ((current_f, current), frontier')"
    and nv: "n_position current \<notin> visited"
    and succs: "get_successors env current = Inr succs"
    and relax: "astar_relax env heuristic goal current (insert (n_position current) visited) succs
                  (frontier', g_costs) = (frontier'', g_costs')"
  shows "card ((frontier_cells frontier'' \<union> cells env) - insert (n_position current) visited)
           < card ((frontier_cells frontier \<union> cells env) - visited)"
proof -
  from heappop_set(1) [OF pop] have cur: "n_position current \<in> frontier_cells frontier"
    and sub: "frontier_cells frontier' \<subseteq> frontier_cells frontier"
    by (auto simp: frontier_cells_def)
  have "frontier_cells frontier'' \<subseteq> frontier_cells frontier' \<union> cells env"
    using astar_relax_cells [OF _ relax] get_successors_in_cells [OF succs] by blast
  with sub cur nv
  have "(frontier_cells frontier'' \<union> cells env) - insert (n_position current) visited
        \<subset> (frontier_cells frontier \<union> cells env) - visited"
    by auto
  moreover have "finite ((frontier_cells frontier \<union> cells env) - visited)"
    by (simp add: frontier_cells_def finite_cells)
  ultimately show ?thesis by (rule psubset_card_mono [rotated])
qed

termination AStar_loop
proof (relation "measures [\<lambda>(env, heuristic, goal, frontier, g_costs, visited).
                              card ((frontier_cells frontier \<union> cells env) - visited),
                           \<lambda>(env, heuristic, goal, frontier, g_costs, visited). length frontier]",
       goal_cases)
  case 1
  show ?case by simp
next
  case (2 env heuristic goal frontier g_costs visited x2 x y xa ya)
  then have "heappop entry_less frontier = Some ((xa, ya), y)" by simp
  from astar_discard_measure(1) [OF this, of env visited] astar_discard_measure(2) [OF this]
  show ?case by auto
next
  case (3 env heuristic goal frontier g_costs visited x2 x y xa ya xb b xc yb)
  then have pop: "heappop entry_less frontier = Some ((xa, ya), y)"
    and relax: "astar_relax env heuristic goal ya (insert (n_position ya) visited) b (y, g_costs)
                  = (xc, yb)"
    by simp_all
  from astar_expand_measure [OF pop 3(4) 3(7) relax] 3(5) show ?case by simp
qed

declare AStar_loop.simps [simp del]

definition AStar_search :: "GridEnvironment \<Rightarrow> string \<Rightarrow> pos \<Rightarrow> pos \<Rightarrow> error + pos list option" where
  "AStar_search env heuristic start goal =
     AStar_loop env heuristic goal
       (heappush entry_less [] (calculate_heuristic heuristic start goal, start_node start))
       [start \<mapsto> 0] {}"

section \<open>Local search repair (algorithms.py)\<close>

text \<open>
  The module \<open>random\<close> is modelled by an arbitrary infinite sequence of raw draws that
  the calls consume in order. \<open>randint a b\<close> (called with \<open>a \<le> b\<close> only) can return
  every integer between \<open>a\<close> and \<open>b\<close>; \<open>random()\<close> returns a multiple of \<open>2\<^sup>-\<^sup>5\<^sup>3\<close> in
  [0, 1); \<open>sample(range(1, n - 1), 2)\<close> returns two different indices.
\<close>

type_synonym rng = "nat stream"

definition randint :: "int \<Rightarrow> int \<Rightarrow> rng \<Rightarrow> int \<times> rng" where
  "randint a b g = (a + int (shd g mod nat (b - a + 1)), stl g)"

definition random_float :: "rng \<Rightarrow> real \<times> rng" where
  "random_float g = (real (shd g mod 2 ^ 53) / 2 ^ 53, stl g)"

definition sample2 :: "nat \<Rightarrow> rng \<Rightarrow> (nat \<times> nat) \<times> rng" where
  "sample2 n g =
     (let i = 1 + shd g mod (n - 2);
          k = 1 + shd (stl g) mod (n - 3);
          j = (if k < i then k else k + 1)
      in ((i, j), stl (stl g)))"

text \<open>A path score: a number, or \<open>float('inf')\<close> for the empty path.\<close>

datatype score = Finite int | Infinity

fun score_less :: "score \<Rightarrow> score \<Rightarrow> bool" where
  "score_less (Finite a) (Finite b) \<longleftrightarrow> a < b"
| "score_less (Finite a) Infinity \<longleftrightarrow> True"
| "score_less Infinity _ \<longleftrightarrow> False"

subsection \<open>Hill climbing\<close>

fun hc_eval_loop :: "GridEnvironment \<Rightarrow> pos list \<Rightarrow> int \<Rightarrow> int \<Rightarrow> error + int" where
  "hc_eval_loop env [] t total_cost = Inr total_cost"
| "hc_eval_loop env (p # ps) t total_cost =
     (let total_cost = total_cost + get_terrain_cost env (fst p) (snd p) in
      case is_obstructed env (fst p) (snd p) t of
        Inl e \<Rightarrow> Inl e
      | Inr blocked \<Rightarrow>
          hc_eval_loop env ps (t + 1) (if blocked then total_cost + 1000 else total_cost))"

definition hc_evaluate_path :: "GridEnvironment \<Rightarrow> pos list \<Rightarrow> error + score" where
  "hc_evaluate_path env path =
     (if path = [] then Inr Infinity
      else (case hc_eval_loop env (drop 1 path) 0 0 of
              Inl e \<Rightarrow> Inl e
            | Inr total_cost \<Rightarrow> Inr (Finite total_cost)))"

fun far_expand ::
  "GridEnvironment \<Rightarrow> pos list \<Rightarrow> pos \<Rightarrow> pos list \<Rightarrow> (int \<times> int) list
     \<Rightarrow> (pos \<times> pos list) list \<times> pos set \<Rightarrow> error + (pos \<times> pos list) list \<times> pos set" where
  "far_expand env original_segment current path [] qv = Inr qv"
| "far_expand env original_segment current path (d # ds) (queue, visited) =
     (let neighbor = (fst current + fst d, snd current + snd d) in
      if is_within_bounds env (fst neighbor) (snd neighbor) \<and> neighbor \<notin> visited then
        (case is_obstructed env (fst neighbor) (snd neighbor) 0 of
           Inl e \<Rightarrow> Inl e
         | Inr blocked \<Rightarrow>
             if \<not> blocked \<and> neighbor \<notin> set original_segment
             then far_expand env original_segment current path ds
                    (queue @ [(neighbor, path @ [neighbor])], insert neighbor visited)
             else far_expand env original_segment current path ds (queue, visited))
      else far_expand env original_segment current path ds (queue, visited))"

lemma far_expand_measure:
  "far_expand env seg current path ds (queue, visited) = Inr (queue', visited') \<Longrightarrow>
   card (cells env - visited') + length queue' = card (cells env - visited) + length queue"
proof (induction ds arbitrary: queue visited)
  case Nil
  then show ?case by simp
next
  case (Cons d ds)
  let ?n = "(fst current + fst d, snd current + snd d)"
  show ?case
  proof (cases "is_within_bounds env (fst ?n) (snd ?n) \<and> ?n \<notin> visited
                \<and> is_obstructed env (fst ?n) (snd ?n) 0 = Inr False \<and> ?n \<notin> set seg")
    case True
    with Cons.prems
    have "far_expand env seg current path ds (queue @ [(?n, path @ [?n])], insert ?n visited)
          = Inr (queue', visited')"
      by (simp add: Let_def)
    from Cons.IH [OF this]
    have "card (cells env - visited') + length queue' =
          card (cells env - insert ?n visited) + length queue + 1"
      by simp
    moreover have "?n \<in> cells env - visited"
      using True by (simp add: in_cells)
    then have "card (cells env - insert ?n visited) + 1 = card (cells env - visited)"
      using finite_cells [of env]
      by (metis Diff_insert Suc_eq_plus1 card_Suc_Diff1 finite_Diff)
    ultimately show ?thesis by simp
  next
    case False
    with Cons.prems have "far_expand env seg current path ds (queue, visited) = Inr (queue', visited')"
      by (auto simp: Let_def split: sum.splits if_splits)
    from Cons.IH [OF this] show ?thesis .
  qed
qed

function far_loop ::
  "GridEnvironment \<Rightarrow> pos \<Rightarrow> pos list \<Rightarrow> (pos \<times> pos list) list \<Rightarrow> pos set
     \<Rightarrow> error + pos list option" where
  "far_loop env end original_segment [] visited = Inr None"
| "far_loop env end original_segment ((current, path) # queue) visited =
     (if current = end then Inr (Some (drop 1 path))
      else (case far_expand env original_segment current path [(0, 1), (1, 0), (0, -1), (-1, 0)]
                   (queue, visited) of
              Inl e \<Rightarrow> Inl e
            | Inr (queue', visited') \<Rightarrow> far_loop env end original_segment queue' visited'))"
  by pat_completeness auto
termination
proof (relation "measure (\<lambda>(env, end, seg, queue, visited).
                            card (cells env - visited) + length queue)", goal_cases)
  case 1
  show ?case by simp
next
  case (2 env "end" seg current path queue visited qv queue' visited')
  then have "far_expand env seg current path [(0, 1), (1, 0), (0, -1), (-1, 0)] (queue, visited)
             = Inr (queue', visited')"
    by simp
  from far_expand_measure [OF this] show ?case by simp
qed

definition find_alternative_route ::
  "GridEnvironment \<Rightarrow> pos \<Rightarrow> pos \<Rightarrow> pos list \<Rightarrow> error + pos list option" where
  "find_alternative_route env start end original_segment =
     far_loop env end original_segment [(start, [start])] {start}"

text \<open>
  \<open>generate_neighbor\<close>: the bare \<open>except\<close> swallows every exception of the detour search.
  The indices drawn are positive, so they are used as naturals.
\<close>

definition hc_generate_neighbor :: "GridEnvironment \<Rightarrow> pos list \<Rightarrow> rng \<Rightarrow> pos list \<times> rng" where
  "hc_generate_neighbor env path g =
     (if length path \<le> 2 then (path, g)
      else
        (case randint 1 (int (length path) - 2) g of (start_idx, g1) \<Rightarrow>
         case randint 1 3 g1 of (r, g2) \<Rightarrow>
           let end_idx = min (start_idx + r) (int (length path) - 1);
               segment_start = path ! nat (start_idx - 1);
               segment_end = path ! nat end_idx
           in (case find_alternative_route env segment_start segment_end
                       (drop (nat start_idx) (take (nat end_idx) path)) of
                 Inr (Some alt_segment) \<Rightarrow>
                   if alt_segment \<noteq> []
                   then (take (nat start_idx) path @ alt_segment @ drop (nat end_idx) path, g2)
                   else (path, g2)
               | _ \<Rightarrow> (path, g2))))"

fun hc_inner ::
  "GridEnvironment \<Rightarrow> nat \<Rightarrow> pos list \<times> score \<times> nat \<Rightarrow> rng
     \<Rightarrow> error + (pos list \<times> score \<times> nat) \<times> rng" where
  "hc_inner env 0 st g = Inr (st, g)"
| "hc_inner env (Suc n) (current_path, current_score, improvements) g =
     (case hc_generate_neighbor env current_path g of (neighbor, g1) \<Rightarrow>
      case hc_evaluate_path env neighbor of
        Inl e \<Rightarrow> Inl e
      | Inr neighbor_score \<Rightarrow>
          (case (if score_less neighbor_score current_score
                 then ((neighbor, neighbor_score, improvements + 1), g1)
                 else (case random_float g1 of (u, g2) \<Rightarrow>
                         if u < 1 / 10 then ((neighbor, neighbor_score, improvements), g2)
                         else ((current_path, current_score, improvements), g2))) of
             (st', g') \<Rightarrow>
               if snd (snd st') \<ge> 10 then Inr (st', g') else hc_inner env n st' g'))"

fun hc_restarts ::
  "GridEnvironment \<Rightarrow> pos \<Rightarrow> pos \<Rightarrow> nat \<Rightarrow> pos list \<times> score \<Rightarrow> rng
     \<Rightarrow> error + pos list \<times> rng" where
  "hc_restarts env start goal 0 (best_path, best_score) g = Inr (best_path, g)"
| "hc_restarts env start goal (Suc n) (best_path, best_score) g =
     (case (if best_path = []
            then (case AStar_search env ''manhattan'' start goal of
                    Inl e \<Rightarrow> Inl e
                  | Inr None \<Rightarrow> Inr []
                  | Inr (Some p) \<Rightarrow> Inr p)
            else Inr best_path) of
        Inl e \<Rightarrow> Inl e
      | Inr current_path \<Rightarrow>
          (case hc_evaluate_path env current_path of
             Inl e \<Rightarrow> Inl e
           | Inr current_score \<Rightarrow>
               (case hc_inner env 100 (current_path, current_score, 0) g of
                  Inl e \<Rightarrow> Inl e
                | Inr ((current_path', current_score', improvements), g') \<Rightarrow>
                    hc_restarts env start goal n
                      (if score_less current_score' best_score
                       then (current_path', current_score')
                       else (best_path, best_score)) g')))"

definition max_restarts :: nat where
  "max_restarts = 10"

definition HillClimbing_search ::
  "GridEnvironment \<Rightarrow> pos \<Rightarrow> pos \<Rightarrow> pos list \<Rightarrow> rng \<Rightarrow> error + pos list \<times> rng" where
  "HillClimbing_search env start goal initial_path g =
     (case hc_evaluate_path env initial_path of
        Inl e \<Rightarrow> Inl e
      | Inr best_score \<Rightarrow> hc_restarts env start goal max_restarts (initial_path, best_score) g)"

subsection \<open>Simulated annealing\<close>

text \<open>
  The repair engine builds the annealer with its default parameters. Temperatures and
  acceptance probabilities are floats in the code and real numbers here.
\<close>

definition initial_temp :: real where
  "initial_temp = 1000"

definition cooling_rate :: real where
  "cooling_rate = 95 / 100"

definition sa_evaluate_path :: "GridEnvironment \<Rightarrow> pos list \<Rightarrow> score" where
  "sa_evaluate_path env path =
     (if path = [] then Infinity
      else Finite (sum_list (map (\<lambda>p. get_terrain_cost env (fst p) (snd p)) (drop 1 path))))"

definition sa_generate_neighbor :: "pos list \<Rightarrow> rng \<Rightarrow> pos list \<times> rng" where
  "sa_generate_neighbor path g =
     (if length path \<le> 3 then (path, g)
      else (case sample2 (length path) g of
              ((i, j), g') \<Rightarrow> (path[i := path ! j, j := path ! i], g')))"

text \<open>
  \<open>random.random() < math.exp((current_score - neighbor_score) / temperature)\<close>, with
  the float arithmetic on infinite scores written out.
\<close>

fun sa_accepts :: "score \<Rightarrow> score \<Rightarrow> real \<Rightarrow> real \<Rightarrow> bool" where
  "sa_accepts (Finite c) (Finite n) temperature u \<longleftrightarrow> u < exp (real_of_int (c - n) / temperature)"
| "sa_accepts Infinity (Finite n) temperature u \<longleftrightarrow> True"
| "sa_accepts _ Infinity temperature u \<longleftrightarrow> False"

lemma cooling_measure:
  assumes "1 < (T::real)"
  shows "nat \<lceil>ln (T * cooling_rate) / ln (20 / 19)\<rceil> < nat \<lceil>ln T / ln (20 / 19)\<rceil>"
proof -
  have c: "0 < ln (20 / 19 :: real)" by simp
  have "ln (T * (19 / 20)) = ln T + ln (19 / 20 :: real)"
    using assms by (intro ln_mult_pos) simp_all
  then have "ln (T * cooling_rate) = ln T + ln (19 / 20 :: real)"
    by (simp add: cooling_rate_def)
  also have "ln (19 / 20 :: real) = - ln (20 / 19)"
    using ln_inverse [of "20 / 19 :: real"] by simp
  finally have "ln (T * cooling_rate) / ln (20 / 19) = ln T / ln (20 / 19) - 1"
    using c by (simp add: field_simps)
  moreover have "0 < ln T / ln (20 / 19)" using assms c by simp
  then have "0 < \<lceil>ln T / ln (20 / 19)\<rceil>" by simp
  ultimately show ?thesis by simp
qed

function sa_loop ::
  "GridEnvironment \<Rightarrow> real \<Rightarrow> pos list \<times> score \<Rightarrow> pos list \<times> score \<Rightarrow> rng \<Rightarrow> pos list \<times> rng" where
  "sa_loop env temperature (current_path, current_score) (best_path, best_score) g =
     (if temperature > 1 then
        (case sa_generate_neighbor current_path g of (neighbor, g1) \<Rightarrow>
           let neighbor_score = sa_evaluate_path env neighbor in
           if score_less neighbor_score current_score
           then sa_loop env (temperature * cooling_rate) (neighbor, neighbor_score)
                  (if score_less neighbor_score best_score then (neighbor, neighbor_score)
                   else (best_path, best_score)) g1
           else (case random_float g1 of (u, g2) \<Rightarrow>
                   sa_loop env (temperature * cooling_rate)
                     (if sa_accepts current_score neighbor_score temperature u
                      then (neighbor, neighbor_score) else (current_path, current_score))
                     (best_path, best_score) g2))
      else (best_path, g))"
  by pat_completeness auto
termination
  by (relation "measure (\<lambda>(env, temperature, cur, best, g). nat \<lceil>ln temperature / ln (20 / 19)\<rceil>)")
     (simp_all add: cooling_measure del: zless_nat_conj)

declare sa_loop.simps [simp del]

definition SimulatedAnnealing_search ::
  "GridEnvironment \<Rightarrow> pos \<Rightarrow> pos \<Rightarrow> pos list \<Rightarrow> rng \<Rightarrow> error + pos list \<times> rng" where
  "SimulatedAnnealing_search env start goal initial_path g =
     (case (if initial_path \<noteq> [] then Inr initial_path
            else (case AStar_search env ''manhattan'' start goal of
                    Inl e \<Rightarrow> Inl e
                  | Inr None \<Rightarrow> Inr []
                  | Inr (Some p) \<Rightarrow> Inr p)) of
        Inl e \<Rightarrow> Inl e
      | Inr current_path \<Rightarrow>
          (let current_score = sa_evaluate_path env current_path in
           Inr (sa_loop env initial_temp (current_path, current_score)
                  (current_path, current_score) g)))"

section \<open>The delivery agent (agent.py)\<close>

record DeliveryStatus =
  st_packages_delivered :: "int set"
  total_cost :: int
  total_time :: int
  path_taken :: "pos list"

text \<open>What the agent prints while it executes a route.\<close>

datatype message =
    ObstacleDetected pos
  | ReplanningFailed
  | PackageDelivered int pos
  | OutOfFuel

text \<open>
  The agent's fields; \<open>printed\<close> is the standard output written so far. The environment
  the agent refers to is passed to each operation.
\<close>

record DeliveryAgent =
  position :: pos
  fuel :: int
  time :: int
  packages_delivered :: "int set"
  path_history :: "pos list"
  status_log :: "DeliveryStatus list"
  printed :: "message list"

definition DeliveryAgent_init :: "GridEnvironment \<Rightarrow> int \<Rightarrow> DeliveryAgent" where
  "DeliveryAgent_init env fuel_capacity =
     \<lparr>position = start_position env, fuel = fuel_capacity, time = 0, packages_delivered = {},
      path_history = [start_position env], status_log = [], printed = []\<rparr>"

definition find_path ::
  "GridEnvironment \<Rightarrow> pos \<Rightarrow> pos \<Rightarrow> string \<Rightarrow> string \<Rightarrow> (error + pos list option) option" where
  "find_path env start goal algorithm heuristic =
     (if algorithm = ''bfs'' then Some (BFS_search env start goal)
      else if algorithm = ''ucs'' then UCS_search env start goal
      else Some (AStar_search env heuristic start goal))"

definition replan_route ::
  "GridEnvironment \<Rightarrow> pos list \<Rightarrow> rng \<Rightarrow> error + pos list option \<times> rng" where
  "replan_route env remaining_route g =
     (if length remaining_route < 2 then Inr (None, g)
      else
        let current_pos = hd remaining_route; goal_pos = last remaining_route in
        case HillClimbing_search env current_pos goal_pos remaining_route g of
          Inl e \<Rightarrow> Inl e
        | Inr (new_path, g1) \<Rightarrow>
            if new_path = [] then
              (case SimulatedAnnealing_search env current_pos goal_pos remaining_route g1 of
                 Inl e \<Rightarrow> Inl e
               | Inr (new_path', g2) \<Rightarrow> Inr (Some new_path', g2))
            else Inr (Some new_path, g1))"

text \<open>The slice \<open>route[1:max_steps+1]\<close>, for every integer \<open>max_steps\<close>.\<close>

definition route_slice :: "pos list \<Rightarrow> int \<Rightarrow> pos list" where
  "route_slice route max_steps =
     (let stop = max_steps + 1;
          stop' = (if stop < 0 then max 0 (int (length route) + stop) else stop)
      in drop 1 (take (nat stop') route))"

definition deliver_packages :: "GridEnvironment \<Rightarrow> pos \<Rightarrow> DeliveryAgent \<Rightarrow> DeliveryAgent" where
  "deliver_packages env next_pos ag =
     fold (\<lambda>(pkg_id, delivery_pos) a.
             if next_pos = delivery_pos \<and> pkg_id \<notin> packages_delivered a
             then a\<lparr>packages_delivered := insert pkg_id (packages_delivered a),
                    printed := printed a @ [PackageDelivered pkg_id next_pos]\<rparr>
             else a)
          (packages env) ag"

text \<open>
  The obstruction check at the head of the loop body. It yields the route variable and
  the cell to enter (both replaced after a successful repair), or nothing when the repair
  failed and the loop is left.
\<close>

definition check_obstruction ::
  "GridEnvironment \<Rightarrow> pos list \<Rightarrow> nat \<Rightarrow> pos \<Rightarrow> DeliveryAgent \<Rightarrow> rng
     \<Rightarrow> error + DeliveryAgent \<times> (pos list \<times> pos) option \<times> rng" where
  "check_obstruction env route i next_pos ag g =
     (case is_obstructed env (fst next_pos) (snd next_pos) (time ag) of
        Inl e \<Rightarrow> Inl e
      | Inr False \<Rightarrow> Inr (ag, Some (route, next_pos), g)
      | Inr True \<Rightarrow>
          (let ag1 = ag\<lparr>printed := printed ag @ [ObstacleDetected next_pos]\<rparr> in
           case replan_route env (drop (i - 1) route) g of
             Inl e \<Rightarrow> Inl e
           | Inr (new_route, g1) \<Rightarrow>
               if new_route \<noteq> None \<and> new_route \<noteq> Some [] then
                 (let route' = take (i - 1) route @ the new_route;
                      next_pos' = (if i < length route' then route' ! i else next_pos)
                  in Inr (ag1, Some (route', next_pos'), g1))
               else Inr (ag1\<lparr>printed := printed ag1 @ [ReplanningFailed]\<rparr>, None, g1)))"

text \<open>
  The loop \<open>for i, next_pos in enumerate(route[1:max_steps+1], 1)\<close>. Its iterator runs
  over the slice taken when the loop starts; the fourth argument is what is left of it.

  The cost of a cell inside the grid is an element of the numpy array \<open>grid\<close>, a signed
  64-bit integer; the cost of a cell outside is the Python integer 999. The debit
  \<open>self.fuel -= move_cost\<close> of a 64-bit cost from a Python integer of \<open>2\<^sup>6\<^sup>3\<close> or more
  raises \<open>OverflowError\<close>, and the call ends there with the exception.
\<close>

fun exec_loop ::
  "GridEnvironment \<Rightarrow> pos list \<Rightarrow> nat \<Rightarrow> pos list \<Rightarrow> DeliveryAgent \<Rightarrow> rng
     \<Rightarrow> error + DeliveryAgent \<times> pos list \<times> rng" where
  "exec_loop env route i [] ag g = Inr (ag, route, g)"
| "exec_loop env route i (next_pos # rest) ag g =
     (case check_obstruction env route i next_pos ag g of
        Inl e \<Rightarrow> Inl e
      | Inr (ag1, None, g1) \<Rightarrow> Inr (ag1, route, g1)
      | Inr (ag1, Some (route', next_pos'), g1) \<Rightarrow>
          (let move_cost = get_terrain_cost env (fst next_pos') (snd next_pos') in
           if fuel ag1 \<ge> move_cost then
             if is_within_bounds env (fst next_pos') (snd next_pos') \<and> 2 ^ 63 \<le> fuel ag1
             then Inl OverflowError
             else
               exec_loop env route' (i + 1) rest
                 (deliver_packages env next_pos'
                    (ag1\<lparr>position := next_pos', fuel := fuel ag1 - move_cost, time := time ag1 + 1,
                          path_history := path_history ag1 @ [next_pos']\<rparr>)) g1
           else Inr (ag1\<lparr>printed := printed ag1 @ [OutOfFuel]\<rparr>, route', g1)))"

definition execute_route ::
  "GridEnvironment \<Rightarrow> pos list \<Rightarrow> int \<Rightarrow> DeliveryAgent \<Rightarrow> rng
     \<Rightarrow> error + DeliveryStatus \<times> DeliveryAgent \<times> pos list \<times> rng" where
  "execute_route env route max_steps ag g =
     (case exec_loop env route 1 (route_slice route max_steps) ag g of
        Inl e \<Rightarrow> Inl e
      | Inr (ag', route', g') \<Rightarrow>
          (let status = \<lparr>st_packages_delivered = packages_delivered ag',
                         total_cost = sum_list (map (\<lambda>p. get_terrain_cost env (fst p) (snd p))
                                                    (drop 1 (path_history ag'))),
                         total_time = time ag',
                         path_taken = path_history ag'\<rparr>
           in Inr (status, ag'\<lparr>status_log := status_log ag' @ [status]\<rparr>, route', g')))"

text \<open>
  \<open>plan_delivery_route\<close>. The set of remaining package ids is kept as a list without
  repetitions (the order in which Python iterates over the set is not fixed by the
  language; no property below depends on it). The inner loop keeps the nearest package
  found so far, the length of its path and the path.
\<close>

fun nearest_loop ::
  "GridEnvironment \<Rightarrow> pos \<Rightarrow> string \<Rightarrow> string \<Rightarrow> int list
     \<Rightarrow> int option \<times> nat option \<times> pos list
     \<Rightarrow> (error + int option \<times> nat option \<times> pos list) option" where
  "nearest_loop env current_pos algorithm heuristic [] acc = Some (Inr acc)"
| "nearest_loop env current_pos algorithm heuristic (pkg_id # rest)
       (nearest_pkg, min_distance, nearest_path) =
     (case map_of (packages env) pkg_id of
        None \<Rightarrow> Some (Inl KeyError)
      | Some goal_pos \<Rightarrow>
          (case find_path env current_pos goal_pos algorithm heuristic of
             None \<Rightarrow> None
           | Some (Inl e) \<Rightarrow> Some (Inl e)
           | Some (Inr None) \<Rightarrow>
               nearest_loop env current_pos algorithm heuristic rest
                 (nearest_pkg, min_distance, nearest_path)
           | Some (Inr (Some path)) \<Rightarrow>
               if path \<noteq> [] \<and> (case min_distance of None \<Rightarrow> True | Some d \<Rightarrow> length path < d)
               then nearest_loop env current_pos algorithm heuristic rest
                      (Some pkg_id, Some (length path), path)
               else nearest_loop env current_pos algorithm heuristic rest
                      (nearest_pkg, min_distance, nearest_path)))"

lemma nearest_loop_member:
  "nearest_loop env cur alg h remaining acc = Some (Inr (Some k, d, p)) \<Longrightarrow>
     k \<in> set remaining \<or> fst acc = Some k"
proof (induction remaining arbitrary: acc)
  case Nil
  then show ?case by simp
next
  case (Cons pkg_id rest)
  obtain np md npath where acc: "acc = (np, md, npath)" by (cases acc)
  from Cons.prems show ?case
    unfolding acc
    by (auto split: option.splits sum.splits if_splits dest!: Cons.IH)
qed

function plan_loop ::
  "GridEnvironment \<Rightarrow> string \<Rightarrow> string \<Rightarrow> pos \<Rightarrow> int list \<Rightarrow> pos list
     \<Rightarrow> (error + pos list) option" where
  "plan_loop env algorithm heuristic current_pos remaining_packages full_route =
     (if remaining_packages = [] then Some (Inr full_route)
      else
        (case nearest_loop env current_pos algorithm heuristic remaining_packages
                (None, None, []) of
           None \<Rightarrow> None
         | Some (Inl e) \<Rightarrow> Some (Inl e)
         | Some (Inr (None, min_distance, nearest_path)) \<Rightarrow> Some (Inr full_route)
         | Some (Inr (Some nearest_pkg, min_distance, nearest_path)) \<Rightarrow>
             if nearest_pkg \<noteq> 0 \<and> nearest_path \<noteq> [] then
               (case map_of (packages env) nearest_pkg of
                  None \<Rightarrow> Some (Inl KeyError)
                | Some delivery_pos \<Rightarrow>
                    plan_loop env algorithm heuristic delivery_pos
                      (removeAll nearest_pkg remaining_packages)
                      (full_route @ drop 1 nearest_path))
             else Some (Inr full_route)))"
  by pat_completeness auto
termination
proof (relation "measure (\<lambda>(env, algorithm, heuristic, current_pos, remaining, full_route).
                            length remaining)", goal_cases)
  case 1
  show ?case by simp
next
  case (2 env algorithm heuristic current_pos remaining full_route x2 b x y nearest_pkg xa
      nearest_path delivery_pos)
  then have "nearest_loop env current_pos algorithm heuristic remaining (None, None, [])
             = Some (Inr (Some nearest_pkg, xa, nearest_path))"
    by auto
  from nearest_loop_member [OF this] have "nearest_pkg \<in> set remaining" by simp
  then have "length (removeAll nearest_pkg remaining) < length remaining"
    by (rule length_removeAll_less)
  then show ?case by simp
qed

declare plan_loop.simps [simp del]

definition plan_delivery_route ::
  "GridEnvironment \<Rightarrow> DeliveryAgent \<Rightarrow> string \<Rightarrow> string \<Rightarrow> (error + pos list) option" where
  "plan_delivery_route env ag algorithm heuristic =
     (if packages env = [] then Some (Inr [])
      else
        (case plan_loop env algorithm heuristic (position ag)
                (remdups (filter (\<lambda>k. k \<notin> packages_delivered ag) (map fst (packages env)))) [] of
           None \<Rightarrow> None
         | Some (Inl e) \<Rightarrow> Some (Inl e)
         | Some (Inr full_route) \<Rightarrow> Some (Inr (position ag # full_route))))"

section \<open>Properties of the grid world model\<close>

lemma get_position_at_time_ok:
  "obstacle_ok ob \<Longrightarrow>
     get_position_at_time ob t = Inr (replay (pattern ob) (hd (history ob)) (t div interval ob))"
  by (cases "history ob") (simp_all add: obstacle_ok_def get_position_at_time_def)

lemma obstructed_loop_ok:
  "list_all obstacle_ok obs \<Longrightarrow>
     obstructed_loop obs p t = Inr (\<exists>ob \<in> set obs. get_position_at_time ob t = Inr p)"
proof (induction obs)
  case Nil
  show ?case by simp
next
  case (Cons ob obs)
  from Cons.prems have ok: "obstacle_ok ob" and rest: "list_all obstacle_ok obs" by simp_all
  from get_position_at_time_ok [OF ok] obtain q where q: "get_position_at_time ob t = Inr q"
    by blast
  show ?case using q Cons.IH [OF rest] by auto
qed

lemma is_obstructed_ok:
  "obstacles_ok env \<Longrightarrow>
     is_obstructed env x y t =
       Inr ((x, y) \<in> static_obstacles env \<or>
            (\<exists>ob \<in> set (map snd (dynamic_obstacles env)). get_position_at_time ob t = Inr (x, y)))"
  unfolding is_obstructed_def obstacles_ok_def
  by (simp add: obstructed_loop_ok del: set_map)

lemma is_obstructed_total:
  "obstacles_ok env \<Longrightarrow> \<exists>b. is_obstructed env x y t = Inr b"
  by (simp add: is_obstructed_ok)

text \<open>
  Claim C1. With well-formed dynamic obstacles, \<open>is_obstructed\<close> returns true exactly when
  the cell is a static obstacle or the predicted position of some dynamic obstacle at that
  time is the cell. A static obstacle at (5,5) obstructs (5,5) at every time, and on the
  10 by 10 grid whose only obstacle is that one, (0,0) is free at time 0.
\<close>

theorem is_obstructed_iff:
  "(obstacles_ok env \<longrightarrow>
      is_obstructed env x y t =
        Inr ((x, y) \<in> static_obstacles env \<or>
             (\<exists>ob \<in> set (map snd (dynamic_obstacles env)).
                get_position_at_time ob t = Inr (x, y))))
   \<and> ((5, 5) \<in> static_obstacles env \<longrightarrow> is_obstructed env 5 5 t = Inr True)
   \<and> is_obstructed ((GridEnvironment_init 10 10)\<lparr>static_obstacles := {(5, 5)}\<rparr>) 0 0 0
       = Inr False"
proof (intro conjI impI)
  assume "obstacles_ok env"
  then show "is_obstructed env x y t =
        Inr ((x, y) \<in> static_obstacles env \<or>
             (\<exists>ob \<in> set (map snd (dynamic_obstacles env)).
                get_position_at_time ob t = Inr (x, y)))"
    by (rule is_obstructed_ok)
next
  assume "(5, 5) \<in> static_obstacles env"
  then show "is_obstructed env 5 5 t = Inr True"
    by (simp add: is_obstructed_def)
next
  show "is_obstructed ((GridEnvironment_init 10 10)\<lparr>static_obstacles := {(5, 5)}\<rparr>) 0 0 0
       = Inr False"
    by (simp add: is_obstructed_def GridEnvironment_init_def)
qed

definition demo_car :: DynamicObstacle where
  "demo_car = DynamicObstacle_init ''car'' (2, 2) [RIGHT, DOWN] 2"

definition demo_env :: GridEnvironment where
  "demo_env = (GridEnvironment_init 10 10)
     \<lparr>static_obstacles := {(5, 5)}, dynamic_obstacles := [(''car'', demo_car)]\<rparr>"

lemma demo_env_ok: "obstacles_ok demo_env"
  by (simp add: obstacles_ok_def obstacle_ok_def demo_env_def demo_car_def
      GridEnvironment_init_def DynamicObstacle_init_def)

lemma demo_car_at_2: "get_position_at_time demo_car 2 = Inr (3, 3)"
  by code_simp

theorem is_obstructed_iff_witness:
  "obstacles_ok demo_env \<and> is_obstructed demo_env 3 3 2 = Inr True
   \<and> (5, 5) \<in> static_obstacles demo_env \<and> is_obstructed demo_env 5 5 7 = Inr True"
proof -
  have dyn: "map snd (dynamic_obstacles demo_env) = [demo_car]"
    and st: "static_obstacles demo_env = {(5, 5)}"
    by (simp_all add: demo_env_def GridEnvironment_init_def)
  from is_obstructed_iff [of demo_env 3 3 2] demo_env_ok
  have "is_obstructed demo_env 3 3 2 = Inr True"
    by (simp add: dyn st demo_car_at_2)
  moreover from is_obstructed_iff [of demo_env 3 3 7]
  have "is_obstructed demo_env 5 5 7 = Inr True"
    by (simp add: st)
  ultimately show ?thesis using demo_env_ok by (simp add: st)
qed

subsection \<open>Prediction does not depend on realized moves\<close>

lemma move_keeps:
  "pattern (snd (move ob t)) = pattern ob"
  "interval (snd (move ob t)) = interval ob"
  "history ob \<noteq> [] \<Longrightarrow> history (snd (move ob t)) \<noteq> []"
  "history ob \<noteq> [] \<Longrightarrow> hd (history (snd (move ob t))) = hd (history ob)"
  by (simp_all add: move_def Let_def)

lemma moves_keeps:
  "pattern (moves ob ts) = pattern ob"
  "interval (moves ob ts) = interval ob"
  "history ob \<noteq> [] \<Longrightarrow> history (moves ob ts) \<noteq> [] \<and> hd (history (moves ob ts)) = hd (history ob)"
  by (induction ts arbitrary: ob) (simp_all add: move_keeps)

lemma get_position_at_time_hd:
  "history ob \<noteq> [] \<Longrightarrow>
     get_position_at_time ob t =
       (if interval ob = 0 \<or> pattern ob = [] then Inl ZeroDivisionError
        else Inr (replay (pattern ob) (hd (history ob)) (t div interval ob)))"
  by (cases "history ob") (simp_all add: get_position_at_time_def)

lemma get_position_at_time_moves:
  assumes "history ob \<noteq> []"
  shows "get_position_at_time (moves ob ts) t = get_position_at_time ob t"
proof -
  from moves_keeps(3) [OF assms]
  have h: "history (moves ob ts) \<noteq> []" "hd (history (moves ob ts)) = hd (history ob)"
    by simp_all
  show ?thesis
    by (simp add: get_position_at_time_hd [OF h(1)] get_position_at_time_hd [OF assms]
        h(2) moves_keeps(1,2))
qed

lemma obstructed_loop_moves:
  "list_all (\<lambda>ob. history ob \<noteq> []) obs \<Longrightarrow>
     obstructed_loop (map (\<lambda>ob. moves ob (sched ob)) obs) p t = obstructed_loop obs p t"
  by (induction obs) (auto simp: get_position_at_time_moves split: sum.splits)

text \<open>
  Claim C4. The predicted position of an obstacle is a function of its configured start
  position, pattern and interval and of the time alone: after any sequence of \<open>move\<close>
  calls on a freshly configured obstacle the prediction is still the replay from the
  start position, and moving any obstacle of an environment (each by its own sequence of
  calls) changes no answer of \<open>is_obstructed\<close>.
\<close>

theorem prediction_independent_of_moves:
  "get_position_at_time (moves (DynamicObstacle_init nm start pat ival) ts) t =
     (if ival = 0 \<or> pat = [] then Inl ZeroDivisionError
      else Inr (replay pat start (t div ival)))
   \<and> (history ob \<noteq> [] \<longrightarrow>
        get_position_at_time (moves ob ts) t = get_position_at_time ob t)
   \<and> (list_all (\<lambda>ob. history ob \<noteq> []) (map snd (dynamic_obstacles env)) \<longrightarrow>
        is_obstructed
          (env\<lparr>dynamic_obstacles :=
                 map (\<lambda>(n, ob). (n, moves ob (sched n ob))) (dynamic_obstacles env)\<rparr>) x y t
        = is_obstructed env x y t)"
proof (intro conjI impI)
  let ?ob = "DynamicObstacle_init nm start pat ival"
  have h: "history ?ob \<noteq> []" by (simp add: DynamicObstacle_init_def)
  show "get_position_at_time (moves ?ob ts) t =
     (if ival = 0 \<or> pat = [] then Inl ZeroDivisionError
      else Inr (replay pat start (t div ival)))"
    by (simp add: get_position_at_time_moves [OF h] get_position_at_time_hd [OF h])
       (simp add: DynamicObstacle_init_def)
next
  assume "history ob \<noteq> []"
  then show "get_position_at_time (moves ob ts) t = get_position_at_time ob t"
    by (rule get_position_at_time_moves)
next
  assume ok: "list_all (\<lambda>ob. history ob \<noteq> []) (map snd (dynamic_obstacles env))"
  have "list_all (\<lambda>ob. history ob \<noteq> []) (map snd dyn) \<Longrightarrow>
        obstructed_loop (map snd (map (\<lambda>(n, ob). (n, moves ob (sched n ob))) dyn)) p t
        = obstructed_loop (map snd dyn) p t" for dyn p
    by (induction dyn) (auto simp: get_position_at_time_moves split: sum.splits)
  with ok show "is_obstructed
          (env\<lparr>dynamic_obstacles :=
                 map (\<lambda>(n, ob). (n, moves ob (sched n ob))) (dynamic_obstacles env)\<rparr>) x y t
        = is_obstructed env x y t"
    by (simp add: is_obstructed_def)
qed

theorem prediction_independent_of_moves_witness:
  "history demo_car \<noteq> []
   \<and> get_position_at_time (moves demo_car [0, 1, 2, 2, 5]) 2 = Inr (3, 3)
   \<and> ob_position (moves demo_car [0, 1, 2, 2, 5]) = (3, 4)
   \<and> list_all (\<lambda>ob. history ob \<noteq> []) (map snd (dynamic_obstacles demo_env))
   \<and> is_obstructed
        (demo_env\<lparr>dynamic_obstacles :=
            map (\<lambda>(n, ob). (n, moves ob [0, 2, 4])) (dynamic_obstacles demo_env)\<rparr>) 3 3 2
      = is_obstructed demo_env 3 3 2"
proof -
  have h: "history demo_car \<noteq> []"
    by (simp add: demo_car_def DynamicObstacle_init_def)
  have l: "list_all (\<lambda>ob. history ob \<noteq> []) (map snd (dynamic_obstacles demo_env))"
    by (simp add: demo_env_def GridEnvironment_init_def h)
  have p: "ob_position (moves demo_car [0, 1, 2, 2, 5]) = (3, 4)"
    by (simp add: demo_car_def DynamicObstacle_init_def move_def shift_def Let_def)
  from prediction_independent_of_moves
    [of "''car''" "(2, 2)" "[RIGHT, DOWN]" 2 "[0, 1, 2, 2, 5]" 2 demo_car demo_env
        "\<lambda>n ob. [0, 2, 4]" 3 3]
  show ?thesis using h l p demo_car_at_2 by simp
qed

subsection \<open>Valid moves\<close>

definition neighbours :: "int \<Rightarrow> int \<Rightarrow> pos list" where
  "neighbours x y = [(x, y - 1), (x, y + 1), (x - 1, y), (x + 1, y)]"

lemma valid_moves_loop_ok:
  assumes "obstacles_ok env"
  shows "valid_moves_loop env x y t ds =
     Inr (map (\<lambda>(nx, ny). (nx, ny, get_terrain_cost env nx ny))
           (filter (\<lambda>(nx, ny). is_within_bounds env nx ny \<and> is_obstructed env nx ny t = Inr False)
              (map (\<lambda>d. (x + fst (dir_value d), y + snd (dir_value d))) ds)))"
proof (induction ds)
  case Nil
  show ?case by simp
next
  case (Cons d ds)
  obtain b where b: "is_obstructed env (x + fst (dir_value d)) (y + snd (dir_value d)) t = Inr b"
    using is_obstructed_total [OF assms] by blast
  show ?case using Cons.IH b by (cases b) (simp_all add: Let_def)
qed

lemma get_valid_moves_ok:
  assumes "obstacles_ok env"
  shows "get_valid_moves env x y t =
     Inr (map (\<lambda>(nx, ny). (nx, ny, get_terrain_cost env nx ny))
           (filter (\<lambda>(nx, ny). is_within_bounds env nx ny \<and> is_obstructed env nx ny t = Inr False)
              (neighbours x y)))"
  by (simp only: get_valid_moves_def valid_moves_loop_ok [OF assms]) (simp add: neighbours_def)

text \<open>
  Claim C9. With well-formed dynamic obstacles, \<open>get_valid_moves\<close> returns, in the order
  up, down, left, right, exactly the axis-aligned neighbours that are inside the grid and
  not obstructed at the given time, each with its terrain cost; every returned cell is at
  distance one from (x, y), so it is neither a diagonal neighbour nor (x, y) itself.
\<close>

theorem get_valid_moves_exact:
  assumes "obstacles_ok env"
  shows "\<exists>ms. get_valid_moves env x y t = Inr ms
     \<and> ms = map (\<lambda>(nx, ny). (nx, ny, get_terrain_cost env nx ny))
              (filter (\<lambda>(nx, ny). is_within_bounds env nx ny
                                  \<and> is_obstructed env nx ny t = Inr False)
                 [(x, y - 1), (x, y + 1), (x - 1, y), (x + 1, y)])
     \<and> (\<forall>(nx, ny, c) \<in> set ms. \<bar>nx - x\<bar> + \<bar>ny - y\<bar> = 1)"
  using get_valid_moves_ok [OF assms, of x y t] by (auto simp: neighbours_def)

theorem get_valid_moves_exact_witness:
  "obstacles_ok demo_env
   \<and> get_valid_moves demo_env 3 2 2 = Inr [(3, 1, 1), (2, 2, 1), (4, 2, 1)]
   \<and> get_valid_moves demo_env 0 0 0 = Inr [(0, 1, 1), (1, 0, 1)]"
proof -
  have dyn: "map snd (dynamic_obstacles demo_env) = [demo_car]"
    and st: "static_obstacles demo_env = {(5, 5)}"
    and wh: "width demo_env = 10" "height demo_env = 10" "grid demo_env = (\<lambda>y x. 1)"
    by (simp_all add: demo_env_def GridEnvironment_init_def)
  have car0: "get_position_at_time demo_car 0 = Inr (3, 2)"
    by code_simp
  have ob: "is_obstructed demo_env a b 2 = Inr ((a, b) = (5, 5) \<or> (a, b) = (3, 3))"
           "is_obstructed demo_env a b 0 = Inr ((a, b) = (5, 5) \<or> (a, b) = (3, 2))" for a b
    using is_obstructed_ok [OF demo_env_ok, of a b]
    by (auto simp: dyn st demo_car_at_2 car0)
  from get_valid_moves_exact [OF demo_env_ok, of 3 2 2]
       get_valid_moves_exact [OF demo_env_ok, of 0 0 0]
  show ?thesis using demo_env_ok
    by (auto simp: ob is_within_bounds_def get_terrain_cost_def wh)
qed


section \<open>Search on the 5 by 5 all-road grid\<close>

definition grid5 :: GridEnvironment where
  "grid5 = GridEnvironment_init 5 5"

text \<open>
  The priorities of the Euclidean heuristic have the form \<open>g + sqrt n\<close> for integers
  \<open>g\<close> and \<open>n\<close>; comparing two of them is decided in integer arithmetic.
\<close>

definition fval :: "int \<Rightarrow> int \<Rightarrow> real" where
  "fval g n = real_of_int g + sqrt (real_of_int n)"

lemma sq_less_iff: "0 \<le> x \<Longrightarrow> 0 \<le> y \<Longrightarrow> x < y \<longleftrightarrow> x\<^sup>2 < (y::real)\<^sup>2"
  by (auto intro: power_strict_mono power2_less_imp_less)

lemma less_nonneg_iff: "0 \<le> (y::real) \<Longrightarrow> m < y \<longleftrightarrow> m < 0 \<or> m\<^sup>2 < y\<^sup>2"
  using sq_less_iff [of m y] sq_less_iff [of 0 y]
  by (cases "0 \<le> m") (auto simp: not_le intro: less_le_trans)

lemma nonneg_less_iff: "0 \<le> (x::real) \<Longrightarrow> x < m \<longleftrightarrow> 0 < m \<and> x\<^sup>2 < m\<^sup>2"
  using sq_less_iff [of x m]
  by (cases "0 \<le> m") (auto simp: not_le)

lemma sqrt_shift_less:
  fixes b d k :: real
  assumes "0 \<le> b" "0 \<le> d"
  shows "sqrt b < k + sqrt d \<longleftrightarrow>
     (if 0 \<le> k then (b - k\<^sup>2 - d < 0 \<or> (b - k\<^sup>2 - d)\<^sup>2 < 4 * k\<^sup>2 * d)
      else (0 < d - b - k\<^sup>2 \<and> 4 * k\<^sup>2 * b < (d - b - k\<^sup>2)\<^sup>2))"
proof -
  define s t where "s = sqrt d" and "t = sqrt b"
  have s: "0 \<le> s" "s\<^sup>2 = d" and t: "0 \<le> t" "t\<^sup>2 = b"
    using assms by (simp_all add: s_def t_def)
  show ?thesis
  proof (cases "0 \<le> k")
    case True
    have "t < k + s \<longleftrightarrow> t\<^sup>2 < (k + s)\<^sup>2"
      using True s t by (intro sq_less_iff) simp_all
    also have "\<dots> \<longleftrightarrow> b - k\<^sup>2 - d < 2 * k * s"
      using s t by (simp add: power2_eq_square algebra_simps)
    also have "\<dots> \<longleftrightarrow> (b - k\<^sup>2 - d < 0 \<or> (b - k\<^sup>2 - d)\<^sup>2 < (2 * k * s)\<^sup>2)"
      using True s by (intro less_nonneg_iff) simp
    also have "(2 * k * s)\<^sup>2 = 4 * k\<^sup>2 * d" using s by (simp add: power2_eq_square algebra_simps)
    finally show ?thesis using True by (simp add: s_def t_def)
  next
    case False
    have "t < k + s \<longleftrightarrow> t + (- k) < s" by auto
    also have "\<dots> \<longleftrightarrow> (t + (- k))\<^sup>2 < s\<^sup>2"
      using False s t by (intro sq_less_iff) simp_all
    also have "\<dots> \<longleftrightarrow> 2 * (- k) * t < d - b - k\<^sup>2"
      using s t by (simp add: power2_eq_square algebra_simps)
    also have "\<dots> \<longleftrightarrow> (0 < d - b - k\<^sup>2 \<and> (2 * (- k) * t)\<^sup>2 < (d - b - k\<^sup>2)\<^sup>2)"
      using False t by (intro nonneg_less_iff) (simp add: mult_nonpos_nonneg)
    also have "(2 * (- k) * t)\<^sup>2 = 4 * k\<^sup>2 * b" using t by (simp add: power2_eq_square algebra_simps)
    finally show ?thesis using False by (simp add: s_def t_def)
  qed
qed


lemma fval_less:
  assumes "0 \<le> b" "0 \<le> d"
  shows "fval a b < fval c d \<longleftrightarrow>
     (if 0 \<le> c - a then (b - (c - a)\<^sup>2 - d < 0 \<or> (b - (c - a)\<^sup>2 - d)\<^sup>2 < 4 * (c - a)\<^sup>2 * d)
      else (0 < d - b - (c - a)\<^sup>2 \<and> 4 * (c - a)\<^sup>2 * b < (d - b - (c - a)\<^sup>2)\<^sup>2))"
proof -
  define K where "K = c - a"
  have A: "real_of_int b - (real_of_int K)\<^sup>2 - real_of_int d = real_of_int (b - K\<^sup>2 - d)"
    and B: "4 * (real_of_int K)\<^sup>2 * real_of_int d = real_of_int (4 * K\<^sup>2 * d)"
    and C: "real_of_int d - real_of_int b - (real_of_int K)\<^sup>2 = real_of_int (d - b - K\<^sup>2)"
    and D: "4 * (real_of_int K)\<^sup>2 * real_of_int b = real_of_int (4 * K\<^sup>2 * b)"
    by simp_all
  have "fval a b < fval c d \<longleftrightarrow>
        sqrt (real_of_int b) < real_of_int K + sqrt (real_of_int d)"
    by (auto simp: fval_def K_def)
  also have "\<dots> \<longleftrightarrow>
     (if 0 \<le> real_of_int K
      then (real_of_int b - (real_of_int K)\<^sup>2 - real_of_int d < 0
            \<or> (real_of_int b - (real_of_int K)\<^sup>2 - real_of_int d)\<^sup>2
                < 4 * (real_of_int K)\<^sup>2 * real_of_int d)
      else (0 < real_of_int d - real_of_int b - (real_of_int K)\<^sup>2
            \<and> 4 * (real_of_int K)\<^sup>2 * real_of_int b
                < (real_of_int d - real_of_int b - (real_of_int K)\<^sup>2)\<^sup>2))"
    using assms by (intro sqrt_shift_less) simp_all
  also have "\<dots> \<longleftrightarrow>
     (if 0 \<le> K then (b - K\<^sup>2 - d < 0 \<or> (b - K\<^sup>2 - d)\<^sup>2 < 4 * K\<^sup>2 * d)
      else (0 < d - b - K\<^sup>2 \<and> 4 * K\<^sup>2 * b < (d - b - K\<^sup>2)\<^sup>2))"
    unfolding A B C D
    by (simp only: of_int_power [symmetric] of_int_less_iff of_int_0_less_iff
          of_int_less_0_iff of_int_0_le_iff)
  finally show ?thesis unfolding K_def .
qed

lemma fval_eq: "fval a b = fval c d \<longleftrightarrow> \<not> fval a b < fval c d \<and> \<not> fval c d < fval a b"
  by auto

lemma euclidean_fval:
  "calculate_heuristic ''euclidean'' p goal
     = fval 0 ((fst p - fst goal)\<^sup>2 + (snd p - snd goal)\<^sup>2)"
  by (simp add: calculate_heuristic_def fval_def)

lemma fval_add:
  "numeral k + fval 0 n = fval (numeral k) n"
  "1 + fval 0 n = fval 1 n"
  by (simp_all add: fval_def)

lemmas search_eval =
  AStar_search_def AStar_loop.simps grid5_def GridEnvironment_init_def
  heappush_def siftdown_def siftdown_loop.simps siftup_def siftup_loop.simps
  get_successors_def get_valid_moves_def is_within_bounds_def is_obstructed_def
  get_terrain_cost_def astar_relax_def entry_less_def
  reconstruct_path_def start_node_def deliver_def Let_def

lemma BFS_grid5:
  "BFS_search grid5 (0, 0) (4, 4) =
     Inr (Some [(0, 0), (0, 1), (0, 2), (0, 3), (0, 4), (1, 4), (2, 4), (3, 4), (4, 4)])"
  by code_simp

lemma UCS_grid5:
  "UCS_search grid5 (0, 0) (4, 4) =
     Some (Inr (Some [(0, 0), (0, 1), (0, 2), (0, 3), (1, 3), (2, 3), (3, 3), (4, 3), (4, 4)]))"
  by code_simp

lemma AStar_manhattan_grid5:
  "AStar_search grid5 ''manhattan'' (0, 0) (4, 4) =
     Inr (Some [(0, 0), (0, 1), (0, 2), (0, 3), (1, 3), (2, 3), (3, 3), (4, 3), (4, 4)])"
  by (simp add: search_eval calculate_heuristic_def)

lemma AStar_chebyshev_grid5:
  "AStar_search grid5 ''chebyshev'' (0, 0) (4, 4) =
     Inr (Some [(0, 0), (0, 1), (1, 1), (1, 2), (2, 2), (2, 3), (3, 3), (3, 4), (4, 4)])"
  by (simp add: search_eval calculate_heuristic_def)

lemma AStar_euclidean_grid5:
  "AStar_search grid5 ''euclidean'' (0, 0) (4, 4) =
     Inr (Some [(0, 0), (0, 1), (1, 1), (1, 2), (2, 2), (2, 3), (3, 3), (3, 4), (4, 4)])"
  by (simp add: search_eval euclidean_fval fval_add fval_less fval_eq)

text \<open>
  Claim C2. On the 5 by 5 grid of cost-1 cells without obstacles, breadth-first search,
  uniform-cost search and A* with each of the three heuristics, from (0,0) to (4,4),
  return a path of exactly nine cells that starts at (0,0) and ends at (4,4).
\<close>

definition nine_cell_path :: "pos list \<Rightarrow> bool" where
  "nine_cell_path path \<longleftrightarrow> length path = 9 \<and> hd path = (0, 0) \<and> last path = (4, 4)"

theorem grid5_paths:
  "(\<exists>path. BFS_search grid5 (0, 0) (4, 4) = Inr (Some path) \<and> nine_cell_path path)
   \<and> (\<exists>path. UCS_search grid5 (0, 0) (4, 4) = Some (Inr (Some path)) \<and> nine_cell_path path)
   \<and> (\<exists>path. AStar_search grid5 ''manhattan'' (0, 0) (4, 4) = Inr (Some path)
              \<and> nine_cell_path path)
   \<and> (\<exists>path. AStar_search grid5 ''euclidean'' (0, 0) (4, 4) = Inr (Some path)
              \<and> nine_cell_path path)
   \<and> (\<exists>path. AStar_search grid5 ''chebyshev'' (0, 0) (4, 4) = Inr (Some path)
              \<and> nine_cell_path path)"
  unfolding BFS_grid5 UCS_grid5 AStar_manhattan_grid5 AStar_euclidean_grid5 AStar_chebyshev_grid5
  by (simp add: nine_cell_path_def)

section \<open>Properties of the repair engine\<close>

lemma hc_eval_loop_total:
  "obstacles_ok env \<Longrightarrow> \<exists>c. hc_eval_loop env ps t tc = Inr c"
proof (induction ps arbitrary: t tc)
  case Nil
  show ?case by simp
next
  case (Cons p ps)
  obtain b where "is_obstructed env (fst p) (snd p) t = Inr b"
    using is_obstructed_total [OF Cons.prems] by blast
  then show ?case using Cons.IH [OF Cons.prems] by (simp add: Let_def)
qed

lemma hc_evaluate_path_total:
  "obstacles_ok env \<Longrightarrow> \<exists>s. hc_evaluate_path env path = Inr s"
  using hc_eval_loop_total [of env "drop 1 path" 0 0]
  by (auto simp: hc_evaluate_path_def)

definition same_ends :: "pos list \<Rightarrow> pos list \<Rightarrow> bool" where
  "same_ends p q \<longleftrightarrow> q \<noteq> [] \<and> hd q = hd p \<and> last q = last p"

lemma same_ends_refl: "p \<noteq> [] \<Longrightarrow> same_ends p p"
  by (simp add: same_ends_def)

lemma randint_range: "a \<le> b \<Longrightarrow> a \<le> fst (randint a b g) \<and> fst (randint a b g) \<le> b"
proof -
  assume "a \<le> b"
  then have "0 < nat (b - a + 1)" by simp
  then have "shd g mod nat (b - a + 1) < nat (b - a + 1)" by (rule mod_less_divisor)
  then have "int (shd g mod nat (b - a + 1)) < int (nat (b - a + 1))"
    by (simp only: of_nat_less_iff)
  also have "int (nat (b - a + 1)) = b - a + 1" using \<open>a \<le> b\<close> by simp
  finally show ?thesis by (simp add: randint_def)
qed

lemma splice_same_ends:
  assumes "0 < s" "e < length path"
  shows "same_ends path (take s path @ alt @ drop e path)"
proof -
  from assms have t: "take s path \<noteq> []" and d: "drop e path \<noteq> []" by auto
  have "hd (take s path @ alt @ drop e path) = hd path"
    using t assms by (simp add: hd_append)
  moreover have "last (take s path @ alt @ drop e path) = last path"
    using d assms by (simp add: last_drop)
  ultimately show ?thesis using t by (simp add: same_ends_def)
qed

lemma hc_generate_neighbor_same_ends:
  assumes "path \<noteq> []"
  shows "same_ends path (fst (hc_generate_neighbor env path g))"
proof (cases "length path \<le> 2")
  case True
  with assms show ?thesis by (simp add: hc_generate_neighbor_def same_ends_def)
next
  case False
  obtain start_idx g1 where s: "randint 1 (int (length path) - 2) g = (start_idx, g1)"
    by (cases "randint 1 (int (length path) - 2) g")
  obtain r g2 where r: "randint 1 3 g1 = (r, g2)" by (cases "randint 1 3 g1")
  have sr: "1 \<le> start_idx" "start_idx \<le> int (length path) - 2"
    using randint_range [of 1 "int (length path) - 2" g] False s by simp_all
  have rr: "1 \<le> r" using randint_range [of 1 3 g1] r by simp
  define end_idx where "end_idx = min (start_idx + r) (int (length path) - 1)"
  have e: "nat end_idx < length path" "0 < nat start_idx"
    using sr rr False by (auto simp: end_idx_def)
  have spl: "same_ends path (take (nat start_idx) path @ alt @ drop (nat end_idx) path)" for alt
    using e by (intro splice_same_ends) simp_all
  show ?thesis
    using False s r spl assms
    by (auto simp: hc_generate_neighbor_def Let_def end_idx_def same_ends_def
             split: sum.splits option.splits)
qed

lemma same_ends_trans: "same_ends p q \<Longrightarrow> same_ends q r \<Longrightarrow> same_ends p r"
  by (simp add: same_ends_def)

lemma hc_inner_same_ends:
  assumes "obstacles_ok env"
  shows "same_ends p current_path \<Longrightarrow>
     \<exists>path' score' impr' g'. hc_inner env n (current_path, current_score, improvements) g
         = Inr ((path', score', impr'), g') \<and> same_ends p path'"
proof (induction n arbitrary: current_path current_score improvements g)
  case 0
  then show ?case by simp
next
  case (Suc n)
  obtain neighbor g1 where nb: "hc_generate_neighbor env current_path g = (neighbor, g1)"
    by (cases "hc_generate_neighbor env current_path g")
  have "current_path \<noteq> []" using Suc.prems by (simp add: same_ends_def)
  from hc_generate_neighbor_same_ends [OF this, of env g] nb
  have ne: "same_ends p neighbor" using Suc.prems by (auto intro: same_ends_trans)
  obtain neighbor_score where sc: "hc_evaluate_path env neighbor = Inr neighbor_score"
    using hc_evaluate_path_total [OF assms] by blast
  obtain u g2 where u: "random_float g1 = (u, g2)" by (cases "random_float g1")
  show ?case
    using nb sc u Suc.IH [OF ne] Suc.IH [OF Suc.prems] ne Suc.prems
    by (auto simp: Let_def)
qed

lemma hc_restarts_same_ends:
  assumes "obstacles_ok env"
  shows "same_ends p best_path \<Longrightarrow>
     \<exists>path' g'. hc_restarts env start goal n (best_path, best_score) g = Inr (path', g')
        \<and> same_ends p path'"
proof (induction n arbitrary: best_path best_score g)
  case 0
  then show ?case by simp
next
  case (Suc n)
  have ne: "best_path \<noteq> []" using Suc.prems by (simp add: same_ends_def)
  obtain current_score where sc: "hc_evaluate_path env best_path = Inr current_score"
    using hc_evaluate_path_total [OF assms] by blast
  from hc_inner_same_ends [OF assms Suc.prems, of 100 current_score 0 g]
  obtain path' score' impr' g' where
    inner: "hc_inner env 100 (best_path, current_score, 0) g = Inr ((path', score', impr'), g')"
    and se: "same_ends p path'" by blast
  show ?case
    using ne sc inner Suc.IH [OF se] Suc.IH [OF Suc.prems]
    by (auto simp del: hc_inner.simps)
qed

lemma HillClimbing_search_same_ends:
  assumes "obstacles_ok env" "initial_path \<noteq> []"
  shows "\<exists>path' g'. HillClimbing_search env start goal initial_path g = Inr (path', g')
        \<and> same_ends initial_path path'"
proof -
  obtain s where sc: "hc_evaluate_path env initial_path = Inr s"
    using hc_evaluate_path_total [OF assms(1)] by blast
  from hc_restarts_same_ends [OF assms(1) same_ends_refl [OF assms(2)]]
  show ?thesis by (simp add: HillClimbing_search_def sc)
qed

lemma replan_route_long:
  assumes "obstacles_ok env" "2 \<le> length remaining_route"
  shows "\<exists>path g'. replan_route env remaining_route g = Inr (Some path, g')
       \<and> path \<noteq> [] \<and> hd path = hd remaining_route \<and> last path = last remaining_route"
proof -
  from assms(2) have ne: "remaining_route \<noteq> []" by auto
  from HillClimbing_search_same_ends [OF assms(1) ne]
  obtain path g' where
    hc: "HillClimbing_search env (hd remaining_route) (last remaining_route) remaining_route g
           = Inr (path, g')"
    and se: "same_ends remaining_route path" by blast
  then show ?thesis using assms(2) by (auto simp: replan_route_def Let_def same_ends_def)
qed

lemma replan_route_short:
  "length remaining_route < 2 \<Longrightarrow> replan_route env remaining_route g = Inr (None, g)"
  by (simp add: replan_route_def)

lemma replan_route_total:
  assumes "obstacles_ok env"
  shows "\<exists>r g'. replan_route env remaining_route g = Inr (r, g') \<and> r \<noteq> Some []"
proof (cases "2 \<le> length remaining_route")
  case True
  from replan_route_long [OF assms True, of g] show ?thesis by auto
next
  case False
  then show ?thesis by (simp add: replan_route_short)
qed

text \<open>
  Claim C8. With well-formed dynamic obstacles and for every sequence of random draws,
  the repair of a route suffix of at least two cells returns a non-empty sequence from
  the suffix's first cell to its last cell; a shorter suffix gives the failure value; an
  empty sequence is never returned.
\<close>

theorem replan_route_result:
  assumes "obstacles_ok env"
  shows "(2 \<le> length remaining_route \<longrightarrow>
            (\<exists>path g'. replan_route env remaining_route g = Inr (Some path, g')
               \<and> path \<noteq> [] \<and> hd path = hd remaining_route
               \<and> last path = last remaining_route))
       \<and> (length remaining_route < 2 \<longrightarrow> replan_route env remaining_route g = Inr (None, g))
       \<and> (\<exists>r g'. replan_route env remaining_route g = Inr (r, g') \<and> r \<noteq> Some [])"
  using replan_route_long [OF assms] replan_route_short replan_route_total [OF assms]
  by blast

theorem replan_route_result_witness:
  "obstacles_ok demo_env
   \<and> (\<exists>path g'. replan_route demo_env [(0, 0), (1, 0)] (sconst 0) = Inr (Some path, g')
          \<and> path \<noteq> [] \<and> hd path = (0, 0) \<and> last path = (1, 0))
   \<and> replan_route demo_env [(0, 0)] (sconst 0) = Inr (None, sconst 0)"
  using replan_route_result [OF demo_env_ok, of "[(0, 0), (1, 0)]" "sconst 0"]
        replan_route_result [OF demo_env_ok, of "[(0, 0)]" "sconst 0"] demo_env_ok
  by simp

section \<open>Properties of route execution\<close>

definition costs_nonneg :: "GridEnvironment \<Rightarrow> bool" where
  "costs_nonneg env \<longleftrightarrow> (\<forall>x y. is_within_bounds env x y \<longrightarrow> 0 \<le> grid env y x)"

lemma get_terrain_cost_nonneg: "costs_nonneg env \<Longrightarrow> 0 \<le> get_terrain_cost env x y"
  by (simp add: costs_nonneg_def get_terrain_cost_def)

definition delivered_ids :: "message list \<Rightarrow> int list" where
  "delivered_ids ms = concat (map (\<lambda>m. case m of PackageDelivered i p \<Rightarrow> [i] | _ \<Rightarrow> []) ms)"

lemma delivered_ids_simps [simp]:
  "delivered_ids [] = []"
  "delivered_ids (ms @ ns) = delivered_ids ms @ delivered_ids ns"
  "delivered_ids [PackageDelivered i p] = [i]"
  "delivered_ids [ObstacleDetected p] = []"
  "delivered_ids [ReplanningFailed] = []"
  "delivered_ids [OutOfFuel] = []"
  by (simp_all add: delivered_ids_def)

text \<open>
  What a stretch of execution may change: the position, fuel, time and history move on,
  and every package id added to the delivered set is printed once, was not in the set
  before, and is in it afterwards.
\<close>

definition progress :: "DeliveryAgent \<Rightarrow> DeliveryAgent \<Rightarrow> bool" where
  "progress ag ag' \<longleftrightarrow>
     (\<exists>ms. printed ag' = printed ag @ ms
          \<and> distinct (delivered_ids ms)
          \<and> set (delivered_ids ms) \<inter> packages_delivered ag = {}
          \<and> packages_delivered ag' = packages_delivered ag \<union> set (delivered_ids ms))
     \<and> time ag \<le> time ag' \<and> status_log ag' = status_log ag"

lemma progress_refl: "progress ag ag"
  by (auto simp: progress_def)

lemma progress_trans:
  assumes "progress a b" "progress b c"
  shows "progress a c"
proof -
  from assms(1) obtain ms where ms: "printed b = printed a @ ms" "distinct (delivered_ids ms)"
    "set (delivered_ids ms) \<inter> packages_delivered a = {}"
    "packages_delivered b = packages_delivered a \<union> set (delivered_ids ms)"
    and t1: "time a \<le> time b" "status_log b = status_log a"
    by (auto simp: progress_def)
  from assms(2) obtain ns where ns: "printed c = printed b @ ns" "distinct (delivered_ids ns)"
    "set (delivered_ids ns) \<inter> packages_delivered b = {}"
    "packages_delivered c = packages_delivered b \<union> set (delivered_ids ns)"
    and t2: "time b \<le> time c" "status_log c = status_log b"
    by (auto simp: progress_def)
  have "printed c = printed a @ (ms @ ns)" using ms ns by simp
  moreover have "distinct (delivered_ids (ms @ ns))" using ms ns by auto
  moreover have "set (delivered_ids (ms @ ns)) \<inter> packages_delivered a = {}" using ms ns by auto
  moreover have "packages_delivered c = packages_delivered a \<union> set (delivered_ids (ms @ ns))"
    using ms ns by auto
  ultimately show ?thesis using t1 t2 unfolding progress_def by (intro conjI exI [of _ "ms @ ns"]) auto
qed

lemma progress_print: "progress ag (ag\<lparr>printed := printed ag @ [m]\<rparr>)"
  if "\<And>i p. m \<noteq> PackageDelivered i p"
  using that by (cases m) (auto simp: progress_def)

lemma deliver_fold_progress:
  "progress ag
     (fold (\<lambda>(pkg_id, delivery_pos) a.
             if next_pos = delivery_pos \<and> pkg_id \<notin> packages_delivered a
             then a\<lparr>packages_delivered := insert pkg_id (packages_delivered a),
                    printed := printed a @ [PackageDelivered pkg_id next_pos]\<rparr>
             else a) pkgs ag)"
proof (induction pkgs arbitrary: ag)
  case Nil
  show ?case by (simp add: progress_refl)
next
  case (Cons pk pkgs)
  obtain pkg_id delivery_pos where pk: "pk = (pkg_id, delivery_pos)" by (cases pk)
  let ?a = "if next_pos = delivery_pos \<and> pkg_id \<notin> packages_delivered ag
            then ag\<lparr>packages_delivered := insert pkg_id (packages_delivered ag),
                    printed := printed ag @ [PackageDelivered pkg_id next_pos]\<rparr>
            else ag"
  have "progress ag ?a"
    unfolding progress_def by (auto intro: exI [of _ "[PackageDelivered pkg_id next_pos]"])
  from progress_trans [OF this Cons.IH [of ?a]] show ?case by (simp add: pk)
qed

lemma deliver_packages_progress: "progress ag (deliver_packages env next_pos ag)"
  unfolding deliver_packages_def by (rule deliver_fold_progress)

lemma deliver_fold_keeps:
  "fuel (fold (\<lambda>(pkg_id, delivery_pos) a.
             if next_pos = delivery_pos \<and> pkg_id \<notin> packages_delivered a
             then a\<lparr>packages_delivered := insert pkg_id (packages_delivered a),
                    printed := printed a @ [PackageDelivered pkg_id next_pos]\<rparr>
             else a) pkgs ag) = fuel ag"
  by (induction pkgs arbitrary: ag) (auto split: prod.splits)

lemma deliver_packages_fuel [simp]: "fuel (deliver_packages env next_pos ag) = fuel ag"
  unfolding deliver_packages_def by (rule deliver_fold_keeps)

lemma check_obstruction_result:
  assumes "check_obstruction env route i next_pos ag g = Inr (ag1, r, g1)"
  shows "fuel ag1 = fuel ag" "progress ag ag1"
proof -
  have p1: "progress ag (ag\<lparr>printed := printed ag @ [ObstacleDetected next_pos]\<rparr>)"
    by (rule progress_print) simp
  have p2: "progress ag (ag\<lparr>printed := printed ag @ [ObstacleDetected next_pos, ReplanningFailed]\<rparr>)"
    by (auto simp: progress_def delivered_ids_def)
  from assms show "fuel ag1 = fuel ag"
    by (auto simp: check_obstruction_def Let_def split: sum.splits bool.splits if_splits)
  from assms p1 p2 show "progress ag ag1"
    by (auto simp: check_obstruction_def Let_def progress_refl
             split: sum.splits bool.splits if_splits)
qed

lemma check_obstruction_total:
  assumes "obstacles_ok env"
  shows "\<exists>ag1 r g1. check_obstruction env route i next_pos ag g = Inr (ag1, r, g1)"
proof -
  obtain b where b: "is_obstructed env (fst next_pos) (snd next_pos) (time ag) = Inr b"
    using is_obstructed_total [OF assms] by blast
  obtain r g' where r: "replan_route env (drop (i - 1) route) g = Inr (r, g')"
    using replan_route_total [OF assms] by blast
  show ?thesis using b r by (cases b) (auto simp: check_obstruction_def Let_def)
qed

lemma exec_loop_total:
  assumes "obstacles_ok env" "costs_nonneg env"
  shows "fuel ag < 2 ^ 63 \<Longrightarrow>
     \<exists>ag' route' g'. exec_loop env route i rest ag g = Inr (ag', route', g')"
proof (induction rest arbitrary: route i ag g)
  case Nil
  show ?case by simp
next
  case (Cons next_pos rest)
  obtain ag1 r g1 where c: "check_obstruction env route i next_pos ag g = Inr (ag1, r, g1)"
    using check_obstruction_total [OF assms(1)] by blast
  have f1: "fuel ag1 < 2 ^ 63" using check_obstruction_result(1) [OF c] Cons.prems by simp
  show ?case
  proof (cases r)
    case None
    with c show ?thesis by simp
  next
    case (Some rn)
    obtain route' next_pos' where rn: "rn = (route', next_pos')" by (cases rn)
    let ?cost = "get_terrain_cost env (fst next_pos') (snd next_pos')"
    let ?ag2 = "deliver_packages env next_pos'
                  (ag1\<lparr>position := next_pos', fuel := fuel ag1 - ?cost, time := time ag1 + 1,
                        path_history := path_history ag1 @ [next_pos']\<rparr>)"
    have "fuel ?ag2 = fuel ag1 - ?cost" by simp
    with f1 get_terrain_cost_nonneg [OF assms(2), of "fst next_pos'" "snd next_pos'"]
    have "fuel ?ag2 < 2 ^ 63" by simp
    from Cons.IH [OF this] f1 c Some rn show ?thesis by (simp add: Let_def)
  qed
qed

lemma exec_loop_fuel:
  assumes "exec_loop env route i rest ag g = Inr (ag', route', g')"
  shows "(0 \<le> fuel ag \<longrightarrow> 0 \<le> fuel ag') \<and> (costs_nonneg env \<longrightarrow> fuel ag' \<le> fuel ag)
         \<and> progress ag ag'"
  using assms
proof (induction rest arbitrary: route i ag g)
  case Nil
  then show ?case by (simp add: progress_refl)
next
  case (Cons next_pos rest)
  from Cons.prems obtain ag1 r g1 where
    c: "check_obstruction env route i next_pos ag g = Inr (ag1, r, g1)"
    by (auto split: sum.splits)
  note c1 = check_obstruction_result [OF c]
  show ?case
  proof (cases r)
    case None
    with c Cons.prems c1 show ?thesis by auto
  next
    case (Some rn)
    obtain route1 np where rn: "rn = (route1, np)" by (cases rn)
    let ?cost = "get_terrain_cost env (fst np) (snd np)"
    show ?thesis
    proof (cases "?cost \<le> fuel ag1")
      case False
      with c Some rn Cons.prems have "ag' = ag1\<lparr>printed := printed ag1 @ [OutOfFuel]\<rparr>"
        by (simp add: Let_def)
      moreover have "progress ag1 (ag1\<lparr>printed := printed ag1 @ [OutOfFuel]\<rparr>)"
        by (rule progress_print) simp
      ultimately show ?thesis using c1 by (auto intro: progress_trans)
    next
      case True
      let ?moved = "ag1\<lparr>position := np, fuel := fuel ag1 - ?cost, time := time ag1 + 1,
                        path_history := path_history ag1 @ [np]\<rparr>"
      let ?ag2 = "deliver_packages env np ?moved"
      from True c Some rn Cons.prems
      have "exec_loop env route1 (i + 1) rest ?ag2 g1 = Inr (ag', route', g')"
        by (simp add: Let_def split: if_splits)
      from Cons.IH [OF this]
      have IH: "0 \<le> fuel ?ag2 \<longrightarrow> 0 \<le> fuel ag'" "costs_nonneg env \<longrightarrow> fuel ag' \<le> fuel ?ag2"
        "progress ?ag2 ag'" by simp_all
      have "progress ag1 ?moved" by (auto simp: progress_def)
      then have "progress ag ?ag2"
        using c1(2) deliver_packages_progress [of ?moved env np] by (blast intro: progress_trans)
      then have "progress ag ag'" using IH(3) by (rule progress_trans)
      moreover have "fuel ?ag2 = fuel ag - ?cost" using c1(1) by simp
      ultimately show ?thesis
        using IH(1,2) True c1(1) get_terrain_cost_nonneg [of env "fst np" "snd np"] by auto
    qed
  qed
qed

lemma execute_route_exec_loop:
  "exec_loop env route 1 (route_slice route max_steps) ag g = Inr (ag', route', g') \<Longrightarrow>
   \<exists>st. execute_route env route max_steps ag g
          = Inr (st, ag'\<lparr>status_log := status_log ag' @ [st]\<rparr>, route', g')"
  by (simp add: execute_route_def Let_def)

definition walker_env :: GridEnvironment where
  "walker_env = (GridEnvironment_init 5 1)\<lparr>packages := [(7, (1, 0))]\<rparr>"

definition walker :: "int \<Rightarrow> DeliveryAgent" where
  "walker fuel_capacity = DeliveryAgent_init walker_env fuel_capacity"

lemma walker_env_ok: "obstacles_ok walker_env" "costs_nonneg walker_env"
  by (simp_all add: obstacles_ok_def costs_nonneg_def walker_env_def GridEnvironment_init_def)

lemmas walker_eval =
  walker_env_def walker_def GridEnvironment_init_def DeliveryAgent_init_def
  execute_route_def route_slice_def check_obstruction_def is_obstructed_def
  get_terrain_cost_def is_within_bounds_def deliver_packages_def Let_def

text \<open>
  Claim C5. With well-formed obstacles, non-negative terrain costs and non-negative fuel:
  whenever \<open>execute_route\<close> returns, the fuel is still non-negative and not more than
  before, and it does return when the fuel is below \<open>2\<^sup>6\<^sup>3\<close> (from there on a debit raises
  \<open>OverflowError\<close>); the same bounds hold for every stretch of the loop; and when the cell
  to enter costs more than the fuel left, the loop ends there, whatever is left of the
  route, with the fuel untouched.
\<close>

theorem execute_route_fuel:
  assumes "obstacles_ok env" "costs_nonneg env" "0 \<le> fuel ag"
  shows "(\<forall>st ag' route' g'. execute_route env route max_steps ag g = Inr (st, ag', route', g')
            \<longrightarrow> 0 \<le> fuel ag' \<and> fuel ag' \<le> fuel ag)
       \<and> (fuel ag < 2 ^ 63
            \<longrightarrow> (\<exists>st ag' route' g'.
                   execute_route env route max_steps ag g = Inr (st, ag', route', g')))
       \<and> (\<forall>ag' route' g'. exec_loop env route i rest ag g = Inr (ag', route', g')
            \<longrightarrow> 0 \<le> fuel ag' \<and> fuel ag' \<le> fuel ag)
       \<and> (\<forall>ag1 route1 np g1.
            check_obstruction env route i next_pos ag g = Inr (ag1, Some (route1, np), g1)
            \<and> fuel ag1 < get_terrain_cost env (fst np) (snd np)
            \<longrightarrow> fuel ag1 = fuel ag
                \<and> exec_loop env route i (next_pos # rest) ag g
                    = Inr (ag1\<lparr>printed := printed ag1 @ [OutOfFuel]\<rparr>, route1, g1))"
proof (intro conjI allI impI)
  fix st ag' route' g'
  assume e: "execute_route env route max_steps ag g = Inr (st, ag', route', g')"
  then obtain ag2 where
    l: "exec_loop env route 1 (route_slice route max_steps) ag g = Inr (ag2, route', g')"
    and ag': "ag' = ag2\<lparr>status_log := status_log ag2 @ [st]\<rparr>"
    by (auto simp: execute_route_def Let_def split: sum.splits)
  from exec_loop_fuel [OF l] assms ag'
  show "0 \<le> fuel ag'" "fuel ag' \<le> fuel ag" by simp_all
next
  assume "fuel ag < 2 ^ 63"
  from exec_loop_total [OF assms(1,2) this] obtain ag' route' g' where
    l: "exec_loop env route 1 (route_slice route max_steps) ag g = Inr (ag', route', g')"
    by blast
  from execute_route_exec_loop [OF l]
  show "\<exists>st ag' route' g'. execute_route env route max_steps ag g = Inr (st, ag', route', g')"
    by blast
next
  fix ag' route' g'
  assume "exec_loop env route i rest ag g = Inr (ag', route', g')"
  from exec_loop_fuel [OF this] assms show "0 \<le> fuel ag'" "fuel ag' \<le> fuel ag" by simp_all
next
  fix ag1 route1 np g1
  assume a: "check_obstruction env route i next_pos ag g = Inr (ag1, Some (route1, np), g1)
             \<and> fuel ag1 < get_terrain_cost env (fst np) (snd np)"
  then show "fuel ag1 = fuel ag" using check_obstruction_result(1) by blast
  from a show "exec_loop env route i (next_pos # rest) ag g
                 = Inr (ag1\<lparr>printed := printed ag1 @ [OutOfFuel]\<rparr>, route1, g1)"
    by (simp add: Let_def)
qed

theorem execute_route_fuel_witness:
  "obstacles_ok walker_env \<and> costs_nonneg walker_env \<and> 0 \<le> fuel (walker 2)
   \<and> fuel (walker 2) < 2 ^ 63
   \<and> (\<exists>st ag' route' g'.
         execute_route walker_env [(0, 0), (1, 0), (2, 0), (3, 0), (4, 0)] 10 (walker 2) (sconst 0)
           = Inr (st, ag', route', g')
         \<and> 0 \<le> fuel ag' \<and> fuel ag' \<le> fuel (walker 2))
   \<and> fuel (walker 0) < get_terrain_cost walker_env 1 0
   \<and> exec_loop walker_env [(0, 0), (1, 0), (2, 0)] 1 [(1, 0), (2, 0)] (walker 0) (sconst 0)
       = Inr ((walker 0)\<lparr>printed := printed (walker 0) @ [OutOfFuel]\<rparr>,
              [(0, 0), (1, 0), (2, 0)], sconst 0)"
proof -
  have c: "check_obstruction walker_env [(0, 0), (1, 0), (2, 0)] 1 (1, 0) (walker 0) (sconst 0)
            = Inr (walker 0, Some ([(0, 0), (1, 0), (2, 0)], (1, 0)), sconst 0)"
    by (simp add: walker_eval)
  have f: "fuel (walker 0) < get_terrain_cost walker_env (fst (1, 0)) (snd (1, 0))"
    "0 \<le> fuel (walker 0)" "0 \<le> fuel (walker 2)" "fuel (walker 2) < 2 ^ 63"
    by (simp_all add: walker_eval)
  note t = execute_route_fuel [where env = walker_env and ag = "walker 2" and g = "sconst 0"
          and route = "[(0, 0), (1, 0), (2, 0), (3, 0), (4, 0)]" and max_steps = 10
          and i = 1 and rest = "[]" and next_pos = "(0, 0)", OF walker_env_ok f(3)]
  note t1 = t [THEN conjunct1, rule_format]
  note t2 = t [THEN conjunct2, THEN conjunct1, rule_format, OF f(4)]
  note t3 = execute_route_fuel [where env = walker_env and ag = "walker 0" and g = "sconst 0"
          and route = "[(0, 0), (1, 0), (2, 0)]" and max_steps = 10 and i = 1
          and rest = "[(2, 0)]" and next_pos = "(1, 0)",
          OF walker_env_ok f(2), THEN conjunct2, THEN conjunct2, THEN conjunct2, rule_format,
          OF conjI [OF c f(1)], THEN conjunct2]
  from t2 obtain st ag' route' g' where
    e: "execute_route walker_env [(0, 0), (1, 0), (2, 0), (3, 0), (4, 0)] 10 (walker 2) (sconst 0)
          = Inr (st, ag', route', g')" by blast
  from t1 [OF e] e
  have r: "\<exists>st ag' route' g'.
         execute_route walker_env [(0, 0), (1, 0), (2, 0), (3, 0), (4, 0)] 10 (walker 2) (sconst 0)
           = Inr (st, ag', route', g')
         \<and> 0 \<le> fuel ag' \<and> fuel ag' \<le> fuel (walker 2)" by blast
  from f(1) have "fuel (walker 0) < get_terrain_cost walker_env 1 0" by simp
  with r t3 f(3,4) walker_env_ok show ?thesis by blast
qed

text \<open>
  Claim C6. Whenever \<open>execute_route\<close> returns, the package ids it has added to the
  delivered set (one message is printed at each addition) are pairwise different and were
  not delivered before; the delivered set afterwards is the set before together with these
  ids, so it only grows. With well-formed obstacles, non-negative terrain costs and fuel
  below \<open>2\<^sup>6\<^sup>3\<close> it does return.
\<close>

theorem execute_route_deliveries:
  "(\<forall>st ag' route' g'. execute_route env route max_steps ag g = Inr (st, ag', route', g')
      \<longrightarrow> (\<exists>ms. printed ag' = printed ag @ ms
             \<and> distinct (delivered_ids ms)
             \<and> set (delivered_ids ms) \<inter> packages_delivered ag = {}
             \<and> packages_delivered ag' = packages_delivered ag \<union> set (delivered_ids ms)
             \<and> packages_delivered ag \<subseteq> packages_delivered ag'))
   \<and> (obstacles_ok env \<and> costs_nonneg env \<and> fuel ag < 2 ^ 63
      \<longrightarrow> (\<exists>st ag' route' g'.
             execute_route env route max_steps ag g = Inr (st, ag', route', g')))"
proof (intro conjI allI impI)
  fix st ag' route' g'
  assume e: "execute_route env route max_steps ag g = Inr (st, ag', route', g')"
  then obtain ag2 where
    l: "exec_loop env route 1 (route_slice route max_steps) ag g = Inr (ag2, route', g')"
    and ag': "ag' = ag2\<lparr>status_log := status_log ag2 @ [st]\<rparr>"
    by (auto simp: execute_route_def Let_def split: sum.splits)
  from exec_loop_fuel [OF l] have "progress ag ag2" by simp
  then obtain ms where "printed ag2 = printed ag @ ms" "distinct (delivered_ids ms)"
    "set (delivered_ids ms) \<inter> packages_delivered ag = {}"
    "packages_delivered ag2 = packages_delivered ag \<union> set (delivered_ids ms)"
    by (auto simp: progress_def)
  with ag' show "\<exists>ms. printed ag' = printed ag @ ms
             \<and> distinct (delivered_ids ms)
             \<and> set (delivered_ids ms) \<inter> packages_delivered ag = {}
             \<and> packages_delivered ag' = packages_delivered ag \<union> set (delivered_ids ms)
             \<and> packages_delivered ag \<subseteq> packages_delivered ag'"
    by (intro exI [of _ ms]) auto
next
  assume a: "obstacles_ok env \<and> costs_nonneg env \<and> fuel ag < 2 ^ 63"
  then have "obstacles_ok env" "costs_nonneg env" "fuel ag < 2 ^ 63" by simp_all
  from exec_loop_total [OF this] obtain ag' route' g' where
    l: "exec_loop env route 1 (route_slice route max_steps) ag g = Inr (ag', route', g')"
    by blast
  from execute_route_exec_loop [OF l]
  show "\<exists>st ag' route' g'. execute_route env route max_steps ag g = Inr (st, ag', route', g')"
    by blast
qed

lemma walker_revisit:
  "\<exists>st ag'. execute_route walker_env [(0, 0), (1, 0), (0, 0), (1, 0)] 10 (walker 1000) (sconst 0)
      = Inr (st, ag', [(0, 0), (1, 0), (0, 0), (1, 0)], sconst 0)
    \<and> path_history ag' = [(0, 0), (1, 0), (0, 0), (1, 0)]
    \<and> printed ag' = [PackageDelivered 7 (1, 0)]
    \<and> packages_delivered ag' = {7}"
  by (simp add: walker_eval)

theorem execute_route_deliveries_witness:
  "obstacles_ok walker_env \<and> costs_nonneg walker_env \<and> fuel (walker 1000) < 2 ^ 63
   \<and> (\<exists>st ag' route' g'.
         execute_route walker_env [(0, 0), (1, 0), (0, 0), (1, 0)] 10 (walker 1000) (sconst 0)
           = Inr (st, ag', route', g')
         \<and> path_history ag' = [(0, 0), (1, 0), (0, 0), (1, 0)]
         \<and> printed ag' = [PackageDelivered 7 (1, 0)]
         \<and> distinct (delivered_ids (printed ag'))
         \<and> packages_delivered ag' = {7})"
proof -
  have f: "fuel (walker 1000) < 2 ^ 63" by (simp add: walker_eval)
  note t = execute_route_deliveries [where env = walker_env and ag = "walker 1000"
         and g = "sconst 0" and route = "[(0, 0), (1, 0), (0, 0), (1, 0)]" and max_steps = 10]
  from t [THEN conjunct2, rule_format, OF conjI [OF walker_env_ok(1) conjI [OF walker_env_ok(2) f]]]
  obtain st ag' route' g' where
    e: "execute_route walker_env [(0, 0), (1, 0), (0, 0), (1, 0)] 10 (walker 1000) (sconst 0)
      = Inr (st, ag', route', g')" by blast
  with walker_revisit have
    h: "path_history ag' = [(0, 0), (1, 0), (0, 0), (1, 0)]"
      "printed ag' = [PackageDelivered 7 (1, 0)]" "packages_delivered ag' = {7}"
    by auto
  have p: "printed (walker 1000) = []" by (simp add: walker_eval)
  from t [THEN conjunct1, rule_format, OF e]
  have "distinct (delivered_ids (printed ag'))" using p by auto
  with e h f walker_env_ok show ?thesis by blast
qed

section \<open>Execution after a repair\<close>

definition env3 :: GridEnvironment where
  "env3 = (GridEnvironment_init 3 2)\<lparr>static_obstacles := {(1, 0)}\<rparr>"

definition blocked_route :: "pos list" where
  "blocked_route = [(0, 0), (1, 0), (2, 0)]"

definition detour :: "pos list" where
  "detour = [(0, 0), (0, 1), (1, 1), (2, 1), (2, 0), (2, 0)]"

lemmas env3_eval =
  env3_def GridEnvironment_init_def is_within_bounds_def is_obstructed_def get_terrain_cost_def

lemma env3_ok: "obstacles_ok env3"
  by (simp add: obstacles_ok_def env3_eval)

lemma env3_scores:
  "hc_evaluate_path env3 blocked_route = Inr (Finite 1002)"
  "hc_evaluate_path env3 detour = Inr (Finite 5)"
  by (simp_all add: hc_evaluate_path_def blocked_route_def detour_def env3_eval)

lemma far_blocked:
  "find_alternative_route env3 (0, 0) (2, 0) [(1, 0)] = Inr (Some [(0, 1), (1, 1), (2, 1), (2, 0)])"
  by (simp add: find_alternative_route_def env3_eval Let_def)

lemma neighbor_blocked: "hc_generate_neighbor env3 blocked_route g = (detour, stl (stl g))"
proof -
  have "min (1 + (1 + int (shd (stl g) mod 3))) 2 = 2" by simp
  then show ?thesis
    by (simp add: hc_generate_neighbor_def blocked_route_def randint_def Let_def far_blocked
        detour_def)
qed

lemma hc_generate_neighbor_unfold:
  assumes "2 < length path"
    and "fst (randint 1 (int (length path) - 2) g) = int s"
    and "min (int s + fst (randint 1 3 (stl g))) (int (length path) - 1) = int e"
  shows "hc_generate_neighbor env path g =
     ((case find_alternative_route env (path ! (s - 1)) (path ! e) (drop s (take e path)) of
         Inr (Some alt_segment) \<Rightarrow>
           if alt_segment \<noteq> [] then take s path @ alt_segment @ drop e path else path
       | _ \<Rightarrow> path), stl (stl g))"
proof -
  have r1: "randint 1 (int (length path) - 2) g = (int s, stl g)"
    using assms(2) by (simp add: randint_def)
  obtain r where r2: "randint 1 3 (stl g) = (r, stl (stl g))"
    by (simp add: randint_def)
  have e: "min (int s + r) (int (length path) - 1) = int e"
    using assms(3) r2 by simp
  have s1: "nat (int s - 1) = s - 1" by simp
  show ?thesis
    using assms(1)
    by (simp add: hc_generate_neighbor_def r1 r2 Let_def e s1 split: sum.splits option.splits)
qed

lemma far_detour:
  assumes "1 \<le> s" "s \<le> 4" "s < e" "e \<le> 5"
  shows "find_alternative_route env3 (detour ! (s - 1)) (detour ! e) (drop s (take e detour))
         = Inr None"
proof -
  from assms have "s = 1 \<or> s = 2 \<or> s = 3 \<or> s = 4" "e = 2 \<or> e = 3 \<or> e = 4 \<or> e = 5"
    by auto
  then show ?thesis using assms(3)
    by (elim disjE; simp add: detour_def find_alternative_route_def env3_eval Let_def)
qed

lemma neighbor_detour: "hc_generate_neighbor env3 detour g = (detour, stl (stl g))"
proof -
  define s where "s = Suc (shd g mod 4)"
  define e where "e = min (s + Suc (shd (stl g) mod 3)) 5"
  have "shd g mod 4 < 4" "shd (stl g) mod 3 < 3" by simp_all
  then have se: "1 \<le> s" "s \<le> 4" "s < e" "e \<le> 5" by (auto simp: s_def e_def)
  have l: "length detour = 6" by (simp add: detour_def)
  have "hc_generate_neighbor env3 detour g =
     ((case find_alternative_route env3 (detour ! (s - 1)) (detour ! e) (drop s (take e detour)) of
         Inr (Some alt_segment) \<Rightarrow>
           if alt_segment \<noteq> [] then take s detour @ alt_segment @ drop e detour else detour
       | _ \<Rightarrow> detour), stl (stl g))"
    by (rule hc_generate_neighbor_unfold) (simp_all add: l randint_def s_def e_def)
  then show ?thesis unfolding far_detour [OF se] by simp
qed

lemma hc_inner_fixed:
  assumes nb: "\<And>g. hc_generate_neighbor env path g = (path, stl (stl g))"
    and sc: "hc_evaluate_path env path = Inr sc"
    and "improvements < 10"
  shows "\<exists>g'. hc_inner env n (path, sc, improvements) g = Inr ((path, sc, improvements), g')"
proof (induction n arbitrary: g)
  case 0
  show ?case by simp
next
  case (Suc n)
  have nl: "\<not> score_less sc sc" by (cases sc) simp_all
  obtain u g2 where u: "random_float (stl (stl g)) = (u, g2)"
    by (cases "random_float (stl (stl g))")
  from Suc.IH [of g2] show ?case
    using assms(3) by (simp add: nb sc nl u)
qed

lemma hc_inner_blocked:
  "\<exists>g'. hc_inner env3 (Suc n) (blocked_route, Finite 1002, 0) g = Inr ((detour, Finite 5, 1), g')"
  using hc_inner_fixed [of env3 detour "Finite 5" 1 n "stl (stl g)", OF neighbor_detour env3_scores(2)]
  by (simp add: neighbor_blocked env3_scores)

lemma hc_restarts_detour:
  "\<exists>g'. hc_restarts env3 start goal n (detour, Finite 5) g = Inr (detour, g')"
proof (induction n arbitrary: g)
  case 0
  show ?case by simp
next
  case (Suc n)
  have ne: "detour \<noteq> []" by (simp add: detour_def)
  from hc_inner_fixed [of env3 detour "Finite 5" 0 100 g, OF neighbor_detour env3_scores(2)]
  obtain g1 where "hc_inner env3 100 (detour, Finite 5, 0) g = Inr ((detour, Finite 5, 0), g1)"
    by auto
  with Suc.IH [of g1] show ?case
    by (simp add: ne env3_scores del: hc_inner.simps)
qed

lemma replan_blocked: "\<exists>g'. replan_route env3 blocked_route g = Inr (Some detour, g')"
proof -
  have e: "Suc 99 = (100::nat)" by simp
  from hc_inner_blocked [of 99 g, unfolded e] obtain g1 where
    i: "hc_inner env3 100 (blocked_route, Finite 1002, 0) g = Inr ((detour, Finite 5, 1), g1)"
    by (rule exE)
  from hc_restarts_detour [of "(0, 0)" "(2, 0)" 9 g1] obtain g2 where
    r: "hc_restarts env3 (0, 0) (2, 0) 9 (detour, Finite 5) g1 = Inr (detour, g2)" by blast
  have b: "blocked_route \<noteq> []" "hd blocked_route = (0, 0)" "last blocked_route = (2, 0)"
    "\<not> length blocked_route < 2" "detour \<noteq> []"
    by (simp_all add: blocked_route_def detour_def)
  have "hc_restarts env3 (0, 0) (2, 0) (Suc 9) (blocked_route, Finite 1002) g = Inr (detour, g2)"
    unfolding hc_restarts.simps by (simp add: b env3_scores i r del: hc_inner.simps)
  moreover have "Suc 9 = max_restarts" by (simp add: max_restarts_def)
  ultimately
  have "HillClimbing_search env3 (0, 0) (2, 0) blocked_route g = Inr (detour, g2)"
    by (simp add: HillClimbing_search_def env3_scores del: hc_restarts.simps)
  then show ?thesis by (simp add: replan_route_def b Let_def)
qed

text \<open>
  Claim C7 (the code departs from it). Route \<open>[(0,0), (1,0), (2,0)]\<close> on a 3 by 2 grid
  with a static obstacle at (1,0): the repair at the first step returns the detour
  \<open>[(0,0), (0,1), (1,1), (2,1), (2,0), (2,0)]\<close> for every sequence of random draws, the
  route variable becomes the detour and the agent enters its second cell (0,1). The next
  iteration takes its cell from the slice of the original route: the agent enters (2,0)
  from (0,1), while the third cell of the spliced route is (1,1).
\<close>

theorem execute_route_leaves_repaired_route:
  "\<exists>st ag' g'.
      execute_route env3 [(0, 0), (1, 0), (2, 0)] 1000 (DeliveryAgent_init env3 1000) g
        = Inr (st, ag', [(0, 0), (0, 1), (1, 1), (2, 1), (2, 0), (2, 0)], g')
    \<and> path_history ag' = [(0, 0), (0, 1), (2, 0)]
    \<and> printed ag' = [ObstacleDetected (1, 0)]"
proof -
  from replan_blocked [of g] obtain g1 where
    r: "replan_route env3 blocked_route g = Inr (Some detour, g1)" by blast
  show ?thesis
    using r
    by (simp add: execute_route_def route_slice_def blocked_route_def detour_def
        check_obstruction_def env3_eval Let_def deliver_packages_def DeliveryAgent_init_def)
qed

section \<open>Properties of route planning\<close>

lemma get_successors_total:
  "obstacles_ok env \<Longrightarrow> \<exists>succs. get_successors env node = Inr succs"
  by (simp add: get_successors_def get_valid_moves_ok)

lemma BFS_loop_total:
  "obstacles_ok env \<Longrightarrow> \<exists>r. BFS_loop env goal queue visited = Inr r"
proof (induction env goal queue visited rule: BFS_loop.induct)
  case (1 env goal visited)
  show ?case by simp
next
  case (2 env goal current queue visited)
  obtain succs where s: "get_successors env current = Inr succs"
    using get_successors_total [OF "2.prems"] by blast
  obtain queue' visited' where v: "bfs_visit succs (queue, visited) = (queue', visited')"
    by (cases "bfs_visit succs (queue, visited)")
  show ?case
  proof (cases "n_position current = goal")
    case True
    then show ?thesis by simp
  next
    case False
    from "2.IH" [OF False s v [symmetric] "2.prems"] show ?thesis
      using False s v by simp
  qed
qed

lemma AStar_loop_total:
  "obstacles_ok env \<Longrightarrow> \<exists>r. AStar_loop env heuristic goal frontier g_costs visited = Inr r"
proof (induction env heuristic goal frontier g_costs visited rule: AStar_loop.induct)
  case (1 env heuristic goal frontier g_costs visited)
  show ?case
  proof (cases "heappop entry_less frontier")
    case None
    then show ?thesis by (subst AStar_loop.simps) simp
  next
    case (Some e)
    obtain current_f current frontier' where e: "e = ((current_f, current), frontier')"
      by (cases e) auto
    show ?thesis
    proof (cases "n_position current \<in> visited")
      case True
      from "1.IH"(1) [OF Some e [symmetric] refl True "1.prems"] obtain r where
        "AStar_loop env heuristic goal frontier' g_costs visited = Inr r" by blast
      then show ?thesis using Some e True by (subst AStar_loop.simps) simp
    next
      case False
      show ?thesis
      proof (cases "n_position current = goal")
        case True
        then show ?thesis using Some e False by (subst AStar_loop.simps) (simp add: Let_def)
      next
        case ng: False
        obtain succs where s: "get_successors env current = Inr succs"
          using get_successors_total [OF "1.prems"] by blast
        obtain frontier'' g_costs' where
          r: "astar_relax env heuristic goal current (insert (n_position current) visited) succs
                (frontier', g_costs) = (frontier'', g_costs')"
          by (cases "astar_relax env heuristic goal current (insert (n_position current) visited)
                succs (frontier', g_costs)")
        from "1.IH"(2) [OF Some e [symmetric] refl False refl ng s r [symmetric] "1.prems"]
        obtain res where
          "AStar_loop env heuristic goal frontier'' g_costs' (insert (n_position current) visited)
             = Inr res" by blast
        then show ?thesis
          using Some e False ng s r by (subst AStar_loop.simps) (simp add: Let_def)
      qed
    qed
  qed
qed

subsection \<open>Uniform-cost search returns when no terrain cost is negative\<close>

text \<open>
  Every push either gives a cell its first entry in the cost table or lowers the entry of
  a cell; entries are never negative, so the number of cells without entry, then the sum
  of the entries, then the length of the frontier decrease lexicographically.
\<close>

definition ucs_state_ok :: "(int \<times> SearchNode) list \<Rightarrow> (pos \<rightharpoonup> int) \<Rightarrow> bool" where
  "ucs_state_ok frontier visited_costs \<longleftrightarrow>
     finite (dom visited_costs)
   \<and> (\<forall>p c. visited_costs p = Some c \<longrightarrow> 0 \<le> c)
   \<and> (\<forall>e \<in> set frontier. 0 \<le> n_cost (snd e))"

definition ucs_open :: "GridEnvironment \<Rightarrow> (pos \<rightharpoonup> int) \<Rightarrow> nat" where
  "ucs_open env visited_costs = card (cells env - dom visited_costs)"

definition ucs_total :: "(pos \<rightharpoonup> int) \<Rightarrow> nat" where
  "ucs_total visited_costs = (\<Sum>p \<in> dom visited_costs. nat (the (visited_costs p)))"

lemma ucs_open_new:
  assumes "p \<in> cells env" "visited_costs p = None"
  shows "ucs_open env (visited_costs(p \<mapsto> c)) < ucs_open env visited_costs"
proof -
  have "cells env - dom (visited_costs(p \<mapsto> c)) \<subset> cells env - dom visited_costs"
    using assms by auto
  then show ?thesis unfolding ucs_open_def
    by (intro psubset_card_mono) (simp_all add: finite_cells)
qed

lemma ucs_open_same:
  assumes "visited_costs p = Some c'"
  shows "ucs_open env (visited_costs(p \<mapsto> c)) = ucs_open env visited_costs"
proof -
  have "dom (visited_costs(p \<mapsto> c)) = dom visited_costs" using assms by auto
  then show ?thesis by (simp add: ucs_open_def)
qed

lemma ucs_total_lower:
  assumes fin: "finite (dom visited_costs)" and old: "visited_costs p = Some c'"
    and c: "0 \<le> c" "c < c'"
  shows "ucs_total (visited_costs(p \<mapsto> c)) < ucs_total visited_costs"
proof -
  have d: "dom (visited_costs(p \<mapsto> c)) = dom visited_costs" using old by auto
  have p: "p \<in> dom visited_costs" using old by auto
  have rest: "(\<Sum>q \<in> dom visited_costs - {p}. nat (the ((visited_costs(p \<mapsto> c)) q)))
            = (\<Sum>q \<in> dom visited_costs - {p}. nat (the (visited_costs q)))"
    by (rule sum.cong) auto
  have "ucs_total (visited_costs(p \<mapsto> c))
          = nat c + (\<Sum>q \<in> dom visited_costs - {p}. nat (the ((visited_costs(p \<mapsto> c)) q)))"
    unfolding ucs_total_def d using fin p by (subst sum.remove [of _ p]) simp_all
  moreover have "ucs_total visited_costs
          = nat c' + (\<Sum>q \<in> dom visited_costs - {p}. nat (the (visited_costs q)))"
    unfolding ucs_total_def using fin p old by (subst sum.remove [of _ p]) simp_all
  ultimately show ?thesis using rest c by simp
qed

definition ucs_measure ::
  "GridEnvironment \<Rightarrow> (((int \<times> SearchNode) list \<times> (pos \<rightharpoonup> int))
      \<times> ((int \<times> SearchNode) list \<times> (pos \<rightharpoonup> int))) set" where
  "ucs_measure env = measures [\<lambda>(frontier, visited_costs). ucs_open env visited_costs,
                               \<lambda>(frontier, visited_costs). ucs_total visited_costs,
                               \<lambda>(frontier, visited_costs). length frontier]"

text \<open>Relaxing the successors keeps the state well-formed, and either leaves it as it
  is or lowers the first two components of the measure.\<close>

lemma ucs_relax_measure:
  "ucs_state_ok frontier visited_costs \<Longrightarrow>
   \<forall>s \<in> set succs. n_position s \<in> cells env \<and> 0 \<le> n_cost s \<Longrightarrow>
   ucs_relax succs (frontier, visited_costs) = (frontier', visited_costs') \<Longrightarrow>
   ucs_state_ok frontier' visited_costs'
   \<and> ((frontier', visited_costs') = (frontier, visited_costs)
      \<or> ucs_open env visited_costs' < ucs_open env visited_costs
      \<or> (ucs_open env visited_costs' = ucs_open env visited_costs
         \<and> ucs_total visited_costs' < ucs_total visited_costs))"
proof (induction succs arbitrary: frontier visited_costs)
  case Nil
  then show ?case by (simp add: ucs_relax_def)
next
  case (Cons s succs)
  obtain f1 v1 where one: "ucs_relax [s] (frontier, visited_costs) = (f1, v1)"
    by (cases "ucs_relax [s] (frontier, visited_costs)")
  have rest: "ucs_relax succs (f1, v1) = (frontier', visited_costs')"
    using Cons.prems(3) one by (simp add: ucs_relax_def)
  have s: "n_position s \<in> cells env" "0 \<le> n_cost s" using Cons.prems(2) by simp_all
  note ok = Cons.prems(1) [unfolded ucs_state_ok_def]
  have step: "ucs_state_ok f1 v1
   \<and> ((f1, v1) = (frontier, visited_costs)
      \<or> ucs_open env v1 < ucs_open env visited_costs
      \<or> (ucs_open env v1 = ucs_open env visited_costs
         \<and> ucs_total v1 < ucs_total visited_costs))"
  proof (cases "visited_costs (n_position s)")
    case None
    with one have eq: "f1 = heappush entry_less frontier (n_cost s, s)"
      "v1 = visited_costs(n_position s \<mapsto> n_cost s)"
      by (simp_all add: ucs_relax_def)
    have "ucs_state_ok f1 v1"
      using ok s(2) by (auto simp: ucs_state_ok_def eq heappush_set)
    moreover have "ucs_open env v1 < ucs_open env visited_costs"
      unfolding eq using s(1) None by (rule ucs_open_new)
    ultimately show ?thesis by simp
  next
    case (Some c)
    show ?thesis
    proof (cases "n_cost s < c")
      case True
      with Some one have eq: "f1 = heappush entry_less frontier (n_cost s, s)"
        "v1 = visited_costs(n_position s \<mapsto> n_cost s)"
        by (simp_all add: ucs_relax_def)
      have "ucs_state_ok f1 v1"
        using ok s(2) by (auto simp: ucs_state_ok_def eq heappush_set)
      moreover have "ucs_open env v1 = ucs_open env visited_costs"
        unfolding eq using Some by (rule ucs_open_same)
      moreover have "ucs_total v1 < ucs_total visited_costs"
        unfolding eq using ok Some s(2) True by (intro ucs_total_lower) simp_all
      ultimately show ?thesis by simp
    next
      case False
      with Some one have "f1 = frontier" "v1 = visited_costs" by (simp_all add: ucs_relax_def)
      with Cons.prems(1) show ?thesis by simp
    qed
  qed
  from Cons.IH [OF step [THEN conjunct1] _ rest] Cons.prems(2)
  have "ucs_state_ok frontier' visited_costs'
   \<and> ((frontier', visited_costs') = (f1, v1)
      \<or> ucs_open env visited_costs' < ucs_open env v1
      \<or> (ucs_open env visited_costs' = ucs_open env v1
         \<and> ucs_total visited_costs' < ucs_total v1))" by simp
  with step [THEN conjunct2] show ?case by auto
qed

lemma get_successors_cost_nonneg:
  assumes "obstacles_ok env" "costs_nonneg env" "get_successors env node = Inr succs"
    "0 \<le> n_cost node" "s \<in> set succs"
  shows "0 \<le> n_cost s"
proof -
  from assms(3,5) obtain nx ny where "n_cost s = n_cost node + get_terrain_cost env nx ny"
    unfolding get_successors_def get_valid_moves_ok [OF assms(1)] by auto
  with assms(4) get_terrain_cost_nonneg [OF assms(2), of nx ny] show ?thesis by simp
qed

lemma UCS_loop_total:
  assumes ob: "obstacles_ok env" and cn: "costs_nonneg env"
    and ok: "ucs_state_ok frontier visited_costs"
  shows "\<exists>r. UCS_loop env goal frontier visited_costs = Some (Inr r)"
proof -
  have wf: "wf (ucs_measure env)" by (simp add: ucs_measure_def)
  have "\<forall>frontier visited_costs. st = (frontier, visited_costs)
          \<longrightarrow> ucs_state_ok frontier visited_costs
          \<longrightarrow> (\<exists>r. UCS_loop env goal frontier visited_costs = Some (Inr r))" for st
    using wf
  proof (induction st rule: wf_induct_rule)
    case (less st)
    show ?case
    proof (intro allI impI)
      fix frontier visited_costs
      assume st: "st = (frontier, visited_costs)" and ok: "ucs_state_ok frontier visited_costs"
      have IH: "\<exists>r. UCS_loop env goal f2 v2 = Some (Inr r)"
        if "((f2, v2), (frontier, visited_costs)) \<in> ucs_measure env" "ucs_state_ok f2 v2"
        for f2 v2
        using less.IH [of "(f2, v2)"] that st by simp
      show "\<exists>r. UCS_loop env goal frontier visited_costs = Some (Inr r)"
      proof (cases "heappop entry_less frontier")
        case None
        then show ?thesis by (subst UCS_loop.simps) simp
      next
        case (Some a)
        obtain c n frontier' where a: "a = ((c, n), frontier')" by (cases a) auto
        note pop = Some [unfolded a]
        note P = heappop_set [OF pop]
        have ok': "ucs_state_ok frontier' visited_costs"
          using ok P(1) by (auto simp: ucs_state_ok_def)
        have n: "0 \<le> n_cost n" using ok P(1) by (auto simp: ucs_state_ok_def)
        have shorter: "((frontier', visited_costs), (frontier, visited_costs)) \<in> ucs_measure env"
          using P(2) by (simp add: ucs_measure_def)
        show ?thesis
        proof (cases "case visited_costs (n_position n) of None \<Rightarrow> False | Some c' \<Rightarrow> c > c'")
          case True
          with pop IH [OF shorter ok'] show ?thesis by (subst UCS_loop.simps) simp
        next
          case stale: False
          show ?thesis
          proof (cases "n_position n = goal")
            case True
            with pop stale show ?thesis by (subst UCS_loop.simps) simp
          next
            case False
            obtain succs where succs: "get_successors env n = Inr succs"
              using get_successors_total [OF ob] by blast
            obtain f2 v2 where relax: "ucs_relax succs (frontier', visited_costs) = (f2, v2)"
              by (cases "ucs_relax succs (frontier', visited_costs)")
            have "\<forall>s \<in> set succs. n_position s \<in> cells env \<and> 0 \<le> n_cost s"
              using get_successors_in_cells [OF succs]
                get_successors_cost_nonneg [OF ob cn succs n] by blast
            from ucs_relax_measure [OF ok' this relax]
            have ok2: "ucs_state_ok f2 v2"
              and m: "(f2, v2) = (frontier', visited_costs)
                \<or> ucs_open env v2 < ucs_open env visited_costs
                \<or> (ucs_open env v2 = ucs_open env visited_costs
                   \<and> ucs_total v2 < ucs_total visited_costs)"
              by simp_all
            from m P(2) have "((f2, v2), (frontier, visited_costs)) \<in> ucs_measure env"
              by (auto simp: ucs_measure_def)
            from IH [OF this ok2] pop stale False succs relax
            show ?thesis by (subst UCS_loop.simps) simp
          qed
        qed
      qed
    qed
  qed
  with ok show ?thesis by blast
qed

lemma UCS_search_total:
  assumes "obstacles_ok env" "costs_nonneg env"
  shows "\<exists>r. UCS_search env start goal = Some (Inr r)"
proof -
  have "ucs_state_ok (heappush entry_less [] (0, start_node start)) [start \<mapsto> 0]"
    by (auto simp: ucs_state_ok_def heappush_set start_node_def split: if_splits)
  from UCS_loop_total [OF assms this] show ?thesis by (simp add: UCS_search_def)
qed

lemma find_path_total:
  assumes "obstacles_ok env" "algorithm = ''ucs'' \<longrightarrow> costs_nonneg env"
  shows "\<exists>r. find_path env start goal algorithm heuristic = Some (Inr r)"
  using assms BFS_loop_total [of env goal] AStar_loop_total [of env heuristic goal]
    UCS_search_total [of env start goal]
  by (simp add: find_path_def BFS_search_def AStar_search_def del: BFS_loop.simps)

lemma nearest_loop_total:
  assumes "obstacles_ok env" "algorithm = ''ucs'' \<longrightarrow> costs_nonneg env"
  shows "set remaining \<subseteq> fst ` set (packages env) \<Longrightarrow>
     \<exists>r. nearest_loop env cur algorithm heuristic remaining (np, md, npath) = Some (Inr r)"
proof (induction remaining arbitrary: np md npath)
  case Nil
  show ?case by simp
next
  case (Cons pkg_id rest)
  from Cons.prems obtain goal_pos where g: "map_of (packages env) pkg_id = Some goal_pos"
    by (cases "map_of (packages env) pkg_id") (auto simp: map_of_eq_None_iff)
  obtain r where f: "find_path env cur goal_pos algorithm heuristic = Some (Inr r)"
    using find_path_total [OF assms] by blast
  from Cons.prems have rest: "set rest \<subseteq> fst ` set (packages env)" by simp
  show ?case
    using g f Cons.IH [OF rest]
    by (cases r) simp_all
qed

lemma plan_loop_total:
  assumes "obstacles_ok env" "algorithm = ''ucs'' \<longrightarrow> costs_nonneg env"
  shows "set remaining \<subseteq> fst ` set (packages env) \<Longrightarrow>
     \<exists>r. plan_loop env algorithm heuristic cur remaining full_route = Some (Inr r)"
proof (induction "length remaining" arbitrary: remaining cur full_route rule: less_induct)
  case less
  show ?case
  proof (cases "remaining = []")
    case True
    then show ?thesis by (subst plan_loop.simps) simp
  next
    case False
    obtain np md npath where
      n: "nearest_loop env cur algorithm heuristic remaining (None, None, [])
            = Some (Inr (np, md, npath))"
      using nearest_loop_total [OF assms less.prems, of cur heuristic None None "[]"]
      by (metis prod_cases3)
    show ?thesis
    proof (cases "\<exists>k. np = Some k \<and> k \<noteq> 0 \<and> npath \<noteq> []")
      case False
      then show ?thesis using n \<open>remaining \<noteq> []\<close>
        by (subst plan_loop.simps) (auto split: option.splits)
    next
      case True
      then obtain k where k: "np = Some k" "k \<noteq> 0" "npath \<noteq> []" by blast
      from nearest_loop_member [OF n [unfolded k(1)]] have mem: "k \<in> set remaining" by simp
      with less.prems obtain delivery_pos where d: "map_of (packages env) k = Some delivery_pos"
        by (cases "map_of (packages env) k") (auto simp: map_of_eq_None_iff)
      have "length (removeAll k remaining) < length remaining"
        using mem by (rule length_removeAll_less)
      moreover have "set (removeAll k remaining) \<subseteq> fst ` set (packages env)"
        using less.prems by auto
      ultimately obtain r where
        "plan_loop env algorithm heuristic delivery_pos (removeAll k remaining)
           (full_route @ drop 1 npath) = Some (Inr r)"
        using less.hyps by blast
      then show ?thesis using n k d \<open>remaining \<noteq> []\<close>
        by (subst plan_loop.simps) simp
    qed
  qed
qed

lemma plan_delivery_route_head:
  assumes "packages env \<noteq> []"
    and "plan_delivery_route env ag algorithm heuristic = Some (Inr route)"
  shows "route \<noteq> [] \<and> hd route = position ag"
  using assms by (auto simp: plan_delivery_route_def split: option.splits sum.splits)

lemma plan_delivery_route_total:
  assumes "obstacles_ok env" "algorithm = ''ucs'' \<longrightarrow> costs_nonneg env"
  shows "\<exists>route. plan_delivery_route env ag algorithm heuristic = Some (Inr route)"
proof -
  have "set (remdups (filter (\<lambda>k. k \<notin> packages_delivered ag) (map fst (packages env))))
          \<subseteq> fst ` set (packages env)" by auto
  from plan_loop_total [OF assms this, of heuristic "position ag" "[]"]
  show ?thesis by (auto simp: plan_delivery_route_def)
qed

definition starts_at :: "pos \<Rightarrow> pos list \<Rightarrow> bool" where
  "starts_at p route \<longleftrightarrow> take 1 route = [p]"

text \<open>
  The heuristic values are computed by the code in machine numbers: the Euclidean distance
  is a double, and the integer distances are added to 64-bit costs. With the grid, the
  agent and the package destinations inside the range below, every coordinate difference
  is small enough for these computations to raise nothing.
\<close>

definition coordinates_small :: "GridEnvironment \<Rightarrow> DeliveryAgent \<Rightarrow> bool" where
  "coordinates_small env ag \<longleftrightarrow>
     width env \<le> 2 ^ 31 \<and> height env \<le> 2 ^ 31
   \<and> (\<forall>p \<in> insert (position ag) (snd ` set (packages env)).
         \<bar>fst p\<bar> \<le> 2 ^ 31 \<and> \<bar>snd p\<bar> \<le> 2 ^ 31)"

text \<open>
  Claim C10 as stated fails for an environment without packages: the guard at the head of
  \<open>plan_delivery_route\<close> returns the empty route, which has no first element.
\<close>

theorem plan_without_packages:
  "plan_delivery_route grid5 (DeliveryAgent_init grid5 1000) ''astar'' ''manhattan''
     = Some (Inr [])
   \<and> \<not> starts_at (position (DeliveryAgent_init grid5 1000)) []"
  by (simp add: plan_delivery_route_def grid5_def GridEnvironment_init_def starts_at_def)

text \<open>
  Claim C10, amended. For an environment without packages \<open>plan_delivery_route\<close> returns
  the empty route, whatever the strategy. For an environment with at least one package,
  every route that it returns starts at the agent's current position, and it does return
  such a route for every strategy: breadth-first and A* with well-formed obstacles (for A*
  with coordinates in the range where the heuristic is computed without overflow),
  uniform-cost search with well-formed obstacles and non-negative terrain costs.
\<close>

theorem plan_delivery_route_first:
  "(packages env = [] \<longrightarrow> plan_delivery_route env ag algorithm heuristic = Some (Inr []))
   \<and> (packages env \<noteq> [] \<longrightarrow>
        (\<forall>route. plan_delivery_route env ag algorithm heuristic = Some (Inr route)
            \<longrightarrow> starts_at (position ag) route))
   \<and> (packages env \<noteq> [] \<and> obstacles_ok env
        \<and> (algorithm = ''ucs'' \<longrightarrow> costs_nonneg env)
        \<and> (algorithm \<noteq> ''bfs'' \<and> algorithm \<noteq> ''ucs'' \<longrightarrow> coordinates_small env ag)
        \<longrightarrow> (\<exists>route. plan_delivery_route env ag algorithm heuristic = Some (Inr route)
                 \<and> starts_at (position ag) route))"
proof -
  have h: "starts_at (position ag) route"
    if "packages env \<noteq> []" "plan_delivery_route env ag algorithm heuristic = Some (Inr route)"
    for route
    using plan_delivery_route_head [OF that] by (cases route) (simp_all add: starts_at_def)
  have e: "plan_delivery_route env ag algorithm heuristic = Some (Inr [])" if "packages env = []"
    using that by (simp add: plan_delivery_route_def)
  show ?thesis using h e plan_delivery_route_total [of env algorithm ag heuristic] by blast
qed

lemma walker_plan:
  "plan_delivery_route walker_env (walker 1000) ''astar'' ''manhattan''
     = Some (Inr [(0, 0), (1, 0)])"
  by (simp add: plan_delivery_route_def plan_loop.simps find_path_def walker_def walker_env_def
      DeliveryAgent_init_def search_eval calculate_heuristic_def)

lemma walker_small: "coordinates_small walker_env (walker 1000)"
  by (simp add: coordinates_small_def walker_def walker_env_def DeliveryAgent_init_def
      GridEnvironment_init_def)

theorem plan_delivery_route_first_witness:
  "packages grid5 = []
   \<and> plan_delivery_route grid5 (DeliveryAgent_init grid5 1000) ''ucs'' ''manhattan''
       = Some (Inr [])
   \<and> packages walker_env \<noteq> [] \<and> obstacles_ok walker_env \<and> costs_nonneg walker_env
   \<and> coordinates_small walker_env (walker 1000)
   \<and> plan_delivery_route walker_env (walker 1000) ''astar'' ''manhattan''
       = Some (Inr [(0, 0), (1, 0)])
   \<and> starts_at (position (walker 1000)) [(0, 0), (1, 0)]
   \<and> (\<exists>route. plan_delivery_route walker_env (walker 1000) ''ucs'' ''manhattan''
                  = Some (Inr route)
               \<and> starts_at (position (walker 1000)) route)"
proof -
  have g: "packages grid5 = []" by (simp add: grid5_def GridEnvironment_init_def)
  have p: "packages walker_env \<noteq> []" by (simp add: walker_env_def)
  note t1 = plan_delivery_route_first [of grid5 "DeliveryAgent_init grid5 1000" "''ucs''"
      "''manhattan''", THEN conjunct1, rule_format, OF g]
  note t2 = plan_delivery_route_first [of walker_env "walker 1000" "''astar''" "''manhattan''",
      THEN conjunct2, THEN conjunct1, rule_format, OF p walker_plan]
  have "packages walker_env \<noteq> [] \<and> obstacles_ok walker_env
        \<and> (''ucs'' = ''ucs'' \<longrightarrow> costs_nonneg walker_env)
        \<and> (''ucs'' \<noteq> ''bfs'' \<and> ''ucs'' \<noteq> ''ucs''
             \<longrightarrow> coordinates_small walker_env (walker 1000))"
    using p walker_env_ok by simp
  note t3 = plan_delivery_route_first [of walker_env "walker 1000" "''ucs''" "''manhattan''",
      THEN conjunct2, THEN conjunct2, rule_format, OF this]
  from g t1 p walker_env_ok walker_small walker_plan t2 t3 show ?thesis by blast
qed

section \<open>The binary heap keeps its minimum at the front\<close>

text \<open>
  The heap order of a list for a key function: no element is below its parent. A list
  with a hole at \<open>p\<close> satisfies the order wherever \<open>p\<close> is not involved, and the children of
  \<open>p\<close> are not below the parent of \<open>p\<close>.
\<close>

definition heap_ok :: "('a \<Rightarrow> 'k::linorder) \<Rightarrow> 'a list \<Rightarrow> bool" where
  "heap_ok k h \<longleftrightarrow> (\<forall>i. 0 < i \<and> i < length h \<longrightarrow> k (h ! ((i - 1) div 2)) \<le> k (h ! i))"

definition hole_ok :: "('a \<Rightarrow> 'k::linorder) \<Rightarrow> 'a list \<Rightarrow> nat \<Rightarrow> bool" where
  "hole_ok k h p \<longleftrightarrow>
     (\<forall>i. 0 < i \<and> i < length h \<and> i \<noteq> p \<and> (i - 1) div 2 \<noteq> p
          \<longrightarrow> k (h ! ((i - 1) div 2)) \<le> k (h ! i))
   \<and> (\<forall>i. 0 < i \<and> i < length h \<and> (i - 1) div 2 = p \<and> 0 < p
          \<longrightarrow> k (h ! ((p - 1) div 2)) \<le> k (h ! i))"


lemma parent_less: "0 < i \<Longrightarrow> (i - 1) div 2 < (i::nat)"
  by auto


lemma hole_ok_update [simp]: "hole_ok k (h[p := v]) p \<longleftrightarrow> hole_ok k h p"
proof -
  have pp: "(p - 1) div 2 \<noteq> p" if "0 < p" using that by auto
  have a: "h[p := v] ! i = h ! i" if "i \<noteq> p" for i using that by simp
  have b: "(\<forall>i. 0 < i \<and> i < length h \<and> i \<noteq> p \<and> (i - 1) div 2 \<noteq> p
          \<longrightarrow> k (h[p := v] ! ((i - 1) div 2)) \<le> k (h[p := v] ! i))
        \<longleftrightarrow> (\<forall>i. 0 < i \<and> i < length h \<and> i \<noteq> p \<and> (i - 1) div 2 \<noteq> p
          \<longrightarrow> k (h ! ((i - 1) div 2)) \<le> k (h ! i))"
    by (simp add: a cong: conj_cong imp_cong)
  have ne: "i \<noteq> p" if "(i - 1) div 2 = p" "0 < i" for i using that by auto
  have c: "(\<forall>i. 0 < i \<and> i < length h \<and> (i - 1) div 2 = p \<and> 0 < p
          \<longrightarrow> k (h[p := v] ! ((p - 1) div 2)) \<le> k (h[p := v] ! i))
        \<longleftrightarrow> (\<forall>i. 0 < i \<and> i < length h \<and> (i - 1) div 2 = p \<and> 0 < p
          \<longrightarrow> k (h ! ((p - 1) div 2)) \<le> k (h ! i))"
    using pp ne by (metis a)
  show ?thesis unfolding hole_ok_def length_list_update b c ..
qed













section \<open>Static grids: walks, path costs and search nodes\<close>

definition entry_key :: "'p \<times> SearchNode \<Rightarrow> 'p \<times> int" where
  "entry_key e = (fst e, n_cost (snd e))"




definition cell_cost :: "GridEnvironment \<Rightarrow> pos \<Rightarrow> int" where
  "cell_cost env q = get_terrain_cost env (fst q) (snd q)"

text \<open>The total terrain cost of a path: the cost of every cell after the first.\<close>

definition path_cost :: "GridEnvironment \<Rightarrow> pos list \<Rightarrow> int" where
  "path_cost env path = sum_list (map (cell_cost env) (drop 1 path))"

definition edge :: "GridEnvironment \<Rightarrow> pos \<Rightarrow> pos \<Rightarrow> bool" where
  "edge env p q \<longleftrightarrow>
     q \<in> set (neighbours (fst p) (snd p)) \<and> is_within_bounds env (fst q) (snd q)
     \<and> q \<notin> static_obstacles env"

fun walk :: "GridEnvironment \<Rightarrow> pos list \<Rightarrow> bool" where
  "walk env [] \<longleftrightarrow> False"
| "walk env [p] \<longleftrightarrow> True"
| "walk env (p # q # rest) \<longleftrightarrow> edge env p q \<and> walk env (q # rest)"

definition walk_to :: "GridEnvironment \<Rightarrow> pos \<Rightarrow> pos \<Rightarrow> pos list \<Rightarrow> bool" where
  "walk_to env start p w \<longleftrightarrow> walk env w \<and> hd w = start \<and> last w = p"

fun good_node :: "GridEnvironment \<Rightarrow> pos \<Rightarrow> SearchNode \<Rightarrow> bool" where
  "good_node env start (SearchNode p t par a c d) \<longleftrightarrow>
     (case par of
        None \<Rightarrow> p = start \<and> c = 0
      | Some m \<Rightarrow> good_node env start m \<and> edge env (n_position m) p
                  \<and> c = n_cost m + cell_cost env p)"



lemma path_cost_single [simp]: "path_cost env [p] = 0"
  by (simp add: path_cost_def)

lemma chain_nonempty [simp]: "chain n \<noteq> []"
  by (cases n) simp





subsection \<open>Successors on a static grid\<close>





subsection \<open>The heuristics are consistent when every step costs at least 1\<close>





section \<open>A* on a static grid returns a cheapest path\<close>

text \<open>
  The invariant of the A* loop. Every frontier entry carries a node whose back-links
  spell a walk from the start with the node's cost, prioritised by cost plus heuristic;
  the cost table holds, for a closed cell, the cost of a cheapest walk, and for an open
  cell the cost of some frontier entry; every edge out of a closed cell has been relaxed,
  except those from \<open>cur\<close> into \<open>pending\<close> (the successors not yet looked at).
\<close>

definition astar_inv ::
  "GridEnvironment \<Rightarrow> string \<Rightarrow> pos \<Rightarrow> pos \<Rightarrow> pos \<Rightarrow> pos set
     \<Rightarrow> (real \<times> SearchNode) list \<Rightarrow> (pos \<rightharpoonup> int) \<Rightarrow> pos set \<Rightarrow> bool" where
  "astar_inv env heuristic start goal cur pending frontier g_costs visited \<longleftrightarrow>
     heap_ok entry_key frontier
   \<and> (\<forall>e \<in> set frontier.
         good_node env start (snd e)
       \<and> fst e = real_of_int (n_cost (snd e))
                   + calculate_heuristic heuristic (n_position (snd e)) goal
       \<and> (\<exists>g. g_costs (n_position (snd e)) = Some g \<and> g \<le> n_cost (snd e)))
   \<and> (\<forall>p \<in> visited. \<exists>g. g_costs p = Some g
                          \<and> (\<forall>w. walk_to env start p w \<longrightarrow> g \<le> path_cost env w))
   \<and> (\<forall>p g. p \<notin> visited \<and> g_costs p = Some g
          \<longrightarrow> (\<exists>e \<in> set frontier. n_position (snd e) = p \<and> n_cost (snd e) = g))
   \<and> (\<forall>u \<in> visited. \<forall>v. edge env u v \<and> v \<notin> visited \<and> \<not> (u = cur \<and> v \<in> pending)
          \<longrightarrow> (\<exists>gu gv. g_costs u = Some gu \<and> g_costs v = Some gv
                        \<and> gv \<le> gu + cell_cost env v))
   \<and> g_costs start = Some 0"





lemma astar_invI:
  assumes "heap_ok entry_key frontier"
    and "\<And>e. e \<in> set frontier \<Longrightarrow> good_node env start (snd e)"
    and "\<And>e. e \<in> set frontier \<Longrightarrow>
           fst e = real_of_int (n_cost (snd e))
                     + calculate_heuristic heuristic (n_position (snd e)) goal"
    and "\<And>e. e \<in> set frontier \<Longrightarrow>
           \<exists>g. g_costs (n_position (snd e)) = Some g \<and> g \<le> n_cost (snd e)"
    and "\<And>p. p \<in> visited \<Longrightarrow>
           \<exists>g. g_costs p = Some g \<and> (\<forall>w. walk_to env start p w \<longrightarrow> g \<le> path_cost env w)"
    and "\<And>p g. p \<notin> visited \<Longrightarrow> g_costs p = Some g \<Longrightarrow>
           \<exists>e \<in> set frontier. n_position (snd e) = p \<and> n_cost (snd e) = g"
    and "\<And>u v. u \<in> visited \<Longrightarrow> edge env u v \<Longrightarrow> v \<notin> visited \<Longrightarrow> \<not> (u = cur \<and> v \<in> pending) \<Longrightarrow>
           \<exists>gu gv. g_costs u = Some gu \<and> g_costs v = Some gv \<and> gv \<le> gu + cell_cost env v"
    and "g_costs start = Some 0"
  shows "astar_inv env heuristic start goal cur pending frontier g_costs visited"
  unfolding astar_inv_def using assms by blast

lemma astar_invD:
  assumes "astar_inv env heuristic start goal cur pending frontier g_costs visited"
  shows "heap_ok entry_key frontier"
    and "\<And>e. e \<in> set frontier \<Longrightarrow> good_node env start (snd e)"
    and "\<And>e. e \<in> set frontier \<Longrightarrow>
           fst e = real_of_int (n_cost (snd e))
                     + calculate_heuristic heuristic (n_position (snd e)) goal"
    and "\<And>e. e \<in> set frontier \<Longrightarrow>
           \<exists>g. g_costs (n_position (snd e)) = Some g \<and> g \<le> n_cost (snd e)"
    and "\<And>p. p \<in> visited \<Longrightarrow>
           \<exists>g. g_costs p = Some g \<and> (\<forall>w. walk_to env start p w \<longrightarrow> g \<le> path_cost env w)"
    and "\<And>p g. p \<notin> visited \<Longrightarrow> g_costs p = Some g \<Longrightarrow>
           \<exists>e \<in> set frontier. n_position (snd e) = p \<and> n_cost (snd e) = g"
    and "\<And>u v. u \<in> visited \<Longrightarrow> edge env u v \<Longrightarrow> v \<notin> visited \<Longrightarrow> \<not> (u = cur \<and> v \<in> pending) \<Longrightarrow>
           \<exists>gu gv. g_costs u = Some gu \<and> g_costs v = Some gv \<and> gv \<le> gu + cell_cost env v"
    and "g_costs start = Some 0"
  using assms unfolding astar_inv_def by blast+









lemma astar_inv_cur:
  assumes "astar_inv env heuristic start goal cur {} frontier g_costs visited"
  shows "astar_inv env heuristic start goal cur' {} frontier g_costs visited"
proof (rule astar_invI)
  note D = astar_invD [OF assms(1)]
  fix u v
  assume a: "u \<in> visited" "edge env u v" "v \<notin> visited" "\<not> (u = cur' \<and> v \<in> {})"
  then have "\<not> (u = cur \<and> v \<in> {})" by simp
  with a show "\<exists>gu gv. g_costs u = Some gu \<and> g_costs v = Some gv \<and> gv \<le> gu + cell_cost env v"
    by (intro D(7))
qed (fact astar_invD [OF assms(1)])+




subsection \<open>Uniform-cost search returns a walk from the start to the goal\<close>




subsection \<open>Uniform-cost search finds the goal when there is a walk to it\<close>






section \<open>A* against uniform-cost search\<close>






















end
